theory Spec2Isabelle
  imports Main "HOL-Library.Word"
begin

section \<open>The page list of a PDF document (qpdf\_pagelist.h)\<close>

text \<open>
  \<open>PageList\<close> is a list-like view of the pages of a QPDF document. Every method reads or
  changes the page tree of the QPDF object it is bound to, so the model threads an explicit
  state through the methods. An exception leaves the mutations made before the throw in
  place, so a method returns its result (or the exception) together with the state.
  A \<open>const\<close> method is a function of the state that returns no new state.
\<close>

subsection \<open>Machine integers\<close>

text \<open>
  \<open>size_t\<close> and \<open>ssize_t\<close> are 64 bits wide. Both are words; \<open>ssize_t\<close> is read with
  \<open>sint\<close> and compared with \<open><s\<close>. Passing a \<open>size_t\<close> where a \<open>ssize_t\<close> is expected
  keeps the bits.
\<close>

type_synonym size_t = "64 word"
type_synonym ssize_t = "64 word"

subsection \<open>Exceptions\<close>

datatype exn =
    index_error string
  | type_error string
  | value_error string
  | error_already_set
  | stop_iteration
  | out_of_range
  | runtime_error string

fun to_string :: "nat \<Rightarrow> string" where
  "to_string n =
     (if n < 10 then [char_of (48 + n)]
      else to_string (n div 10) @ [char_of (48 + n mod 10)])"

declare to_string.simps [simp del]

subsection \<open>Object handles and the document engine\<close>

text \<open>
  A \<open>QPDFObjectHandle\<close> names an object of some QPDF: the QPDF that owns it (its address,
  \<open>None\<close> for the null pointer), its object number, whether the object is a page
  dictionary, and what the dictionary holds. The identity of an object is the pair of
  owner and object number.
\<close>

record QPDFObjectHandle =
  getOwningQPDF :: "nat option"
  getObjGen :: nat
  isPageObject :: bool
  contents :: nat

definition same_object :: "QPDFObjectHandle \<Rightarrow> QPDFObjectHandle \<Rightarrow> bool" where
  "same_object h h' \<longleftrightarrow> getOwningQPDF h = getOwningQPDF h' \<and> getObjGen h = getObjGen h'"

definition ident :: "QPDFObjectHandle \<Rightarrow> nat option \<times> nat" where
  "ident h = (getOwningQPDF h, getObjGen h)"

text \<open>
  Modelled from the spec: the document engine (class \<open>QPDF\<close> of libqpdf) is not part of
  the repository. The spec gives the interface the page list needs: \<open>allPages\<close> is the
  ordered page collection, \<open>addPageAt\<close> places a handle before or after an anchor,
  \<open>addPageAtEnd\<close> appends, \<open>removePage\<close> removes a handle from the collection and
  \<open>makeIndirectCopy\<close> returns a fresh indirect object of the graph with the same
  contents. The engine finds the anchor and the page to remove by object identity; a handle
  that is not in the collection is an error of the engine. The engine forbids two
  positions of the collection that reference the same indirect object (the source says
  that qpdf does not accept duplicating pages within the same file): \<open>addPage\<close> and
  \<open>addPageAt\<close> refuse a handle whose object is already in the collection, with an
  error of the engine, and leave the collection as it is.
\<close>

definition duplicate_page :: exn where
  "duplicate_page = runtime_error ''duplicate page reference found''"

definition page_not_found :: exn where
  "page_not_found = runtime_error ''page object not referenced in /Pages tree''"

record QPDF =
  getAllPages :: "QPDFObjectHandle list"
  next_obj :: nat

fun findPage :: "QPDFObjectHandle list \<Rightarrow> QPDFObjectHandle \<Rightarrow> nat option" where
  "findPage [] h = None"
| "findPage (p # ps) h =
     (if same_object p h then Some 0
      else (case findPage ps h of None \<Rightarrow> None | Some i \<Rightarrow> Some (Suc i)))"

definition makeIndirectObject :: "nat \<Rightarrow> QPDFObjectHandle \<Rightarrow> QPDF \<Rightarrow> QPDFObjectHandle \<times> QPDF" where
  "makeIndirectObject this oh q =
     (oh\<lparr>getOwningQPDF := Some this, getObjGen := next_obj q\<rparr>,
      q\<lparr>next_obj := Suc (next_obj q)\<rparr>)"

definition addPage :: "QPDFObjectHandle \<Rightarrow> bool \<Rightarrow> QPDF \<Rightarrow> exn + QPDF" where
  "addPage newpage first q =
     (case findPage (getAllPages q) newpage of
        Some pos \<Rightarrow> Inl duplicate_page
      | None \<Rightarrow>
          Inr (if first then q\<lparr>getAllPages := newpage # getAllPages q\<rparr>
               else q\<lparr>getAllPages := getAllPages q @ [newpage]\<rparr>))"

definition addPageAt ::
  "QPDFObjectHandle \<Rightarrow> bool \<Rightarrow> QPDFObjectHandle \<Rightarrow> QPDF \<Rightarrow> exn + QPDF" where
  "addPageAt newpage insert_before refpage q =
     (case findPage (getAllPages q) refpage of
        None \<Rightarrow> Inl page_not_found
      | Some pos \<Rightarrow>
          (case findPage (getAllPages q) newpage of
             Some dup \<Rightarrow> Inl duplicate_page
           | None \<Rightarrow>
               (let at = (if insert_before then pos else Suc pos)
                in Inr (q\<lparr>getAllPages :=
                      take at (getAllPages q) @ [newpage] @ drop at (getAllPages q)\<rparr>))))"

definition removePage :: "QPDFObjectHandle \<Rightarrow> QPDF \<Rightarrow> exn + QPDF" where
  "removePage page q =
     (case findPage (getAllPages q) page of
        None \<Rightarrow> Inl page_not_found
      | Some pos \<Rightarrow>
          Inr (q\<lparr>getAllPages := take pos (getAllPages q) @ drop (Suc pos) (getAllPages q)\<rparr>))"

subsection \<open>Python objects and slices\<close>

text \<open>
  A Python object either wraps a \<open>QPDFObjectHandle\<close> or is something that the cast to a
  handle rejects. An iterable is the list of the objects it yields.
\<close>

datatype pyobject = PyObjectHandle QPDFObjectHandle | PyOther

record pyslice =
  slice_start :: "int option"
  slice_stop :: "int option"
  slice_step :: "int option"

definition PY_SSIZE_T_MAX :: int where
  "PY_SSIZE_T_MAX = 2 ^ 63 - 1"

definition PY_SSIZE_T_MIN :: int where
  "PY_SSIZE_T_MIN = - (2 ^ 63)"

text \<open>
  Modelled from the spec: the slice arithmetic of the host runtime (\<open>PySlice_GetIndicesEx\<close>
  behind \<open>py::slice::compute\<close>) is not part of the repository. The spec asks for the
  normalization rules of standard sequence slicing: bounds are clamped to the machine range
  and then to the length, a missing bound defaults by the direction of the step, and a
  step of zero is an error. The four results are stored into \<open>size_t\<close> variables.
\<close>

definition PyEval_SliceIndex :: "int \<Rightarrow> int" where
  "PyEval_SliceIndex v =
     (if v > PY_SSIZE_T_MAX then PY_SSIZE_T_MAX
      else if v < PY_SSIZE_T_MIN then PY_SSIZE_T_MIN else v)"

definition PySlice_Unpack :: "pyslice \<Rightarrow> (int \<times> int \<times> int) option" where
  "PySlice_Unpack r =
     (let step0 = (case slice_step r of None \<Rightarrow> 1 | Some v \<Rightarrow> PyEval_SliceIndex v)
      in if step0 = 0 then None
         else
           (let step = (if step0 < - PY_SSIZE_T_MAX then - PY_SSIZE_T_MAX else step0);
                start = (case slice_start r of
                           None \<Rightarrow> (if step < 0 then PY_SSIZE_T_MAX else 0)
                         | Some v \<Rightarrow> PyEval_SliceIndex v);
                stop = (case slice_stop r of
                          None \<Rightarrow> (if step < 0 then PY_SSIZE_T_MIN else PY_SSIZE_T_MAX)
                        | Some v \<Rightarrow> PyEval_SliceIndex v)
            in Some (start, stop, step)))"

definition adjust_bound :: "int \<Rightarrow> int \<Rightarrow> int \<Rightarrow> int" where
  "adjust_bound len step b =
     (if b < 0 then
        (if b + len < 0 then (if step < 0 then - 1 else 0) else b + len)
      else if b \<ge> len then (if step < 0 then len - 1 else len)
      else b)"

definition PySlice_AdjustIndices :: "int \<Rightarrow> int \<Rightarrow> int \<Rightarrow> int \<Rightarrow> int \<times> int \<times> int" where
  "PySlice_AdjustIndices len start0 stop0 step =
     (let start = adjust_bound len step start0;
          stop = adjust_bound len step stop0;
          slicelength =
            (if step < 0 then
               (if stop < start then (start - stop - 1) div (- step) + 1 else 0)
             else
               (if start < stop then (stop - start - 1) div step + 1 else 0))
      in (start, stop, slicelength))"

definition compute :: "pyslice \<Rightarrow> size_t \<Rightarrow> (size_t \<times> size_t \<times> size_t \<times> size_t) option" where
  "compute sl len =
     (case PySlice_Unpack sl of
        None \<Rightarrow> None
      | Some (start0, stop0, step) \<Rightarrow>
          (case PySlice_AdjustIndices (sint len) start0 stop0 step of
             (start, stop, slicelength) \<Rightarrow>
               Some (word_of_int start, word_of_int stop, word_of_int step,
                     word_of_int slicelength)))"

subsection \<open>The state\<close>

text \<open>
  The QPDF objects live in a heap indexed by address, so that two page lists can be bound
  to the same document. \<open>inc_refs\<close> records every reference that \<open>inc_ref\<close> has placed on
  the Python wrapper of a QPDF, newest first.
\<close>

record state =
  heap :: "nat \<Rightarrow> QPDF"
  inc_refs :: "nat option list"

record PageList =
  iterpos :: size_t
  qpdf :: nat

definition getQPDF :: "PageList \<Rightarrow> nat" where
  "getQPDF this = qpdf this"

definition pages_of :: "PageList \<Rightarrow> state \<Rightarrow> QPDFObjectHandle list" where
  "pages_of this st = getAllPages (heap st (qpdf this))"

definition update_qpdf :: "PageList \<Rightarrow> QPDF \<Rightarrow> state \<Rightarrow> state" where
  "update_qpdf this q st = st\<lparr>heap := (heap st)(qpdf this := q)\<rparr>"

definition vector_at :: "'a list \<Rightarrow> size_t \<Rightarrow> exn + 'a" where
  "vector_at v n = (if unat n < length v then Inr (v ! unat n) else Inl out_of_range)"

text \<open>A \<open>for\<close> loop over the indices \<open>xs\<close> that stops at the first exception.\<close>

primrec for_each ::
  "nat list \<Rightarrow> (nat \<Rightarrow> state \<Rightarrow> (exn + unit) \<times> state) \<Rightarrow> state \<Rightarrow> (exn + unit) \<times> state" where
  "for_each [] body st = (Inr (), st)"
| "for_each (i # is) body st =
     (case body i st of
        (Inl e, st') \<Rightarrow> (Inl e, st')
      | (Inr _, st') \<Rightarrow> for_each is body st')"

subsection \<open>The methods of PageList\<close>

definition assert_pyobject_is_page :: "pyobject \<Rightarrow> exn + unit" where
  "assert_pyobject_is_page obj =
     (case obj of
        PyOther \<Rightarrow> Inl (type_error ''only pikepdf pages can be assigned to a page list'')
      | PyObjectHandle h \<Rightarrow>
          (if \<not> isPageObject h
           then Inl (type_error ''only pages can be assigned to a page list'')
           else Inr ()))"

definition count :: "PageList \<Rightarrow> state \<Rightarrow> size_t" where
  "count this st = of_nat (length (getAllPages (heap st (qpdf this))))"

definition getPage :: "PageList \<Rightarrow> ssize_t \<Rightarrow> state \<Rightarrow> exn + QPDFObjectHandle" where
  "getPage this index0 st =
     (let pages = getAllPages (heap st (qpdf this));
          index = (if index0 <s 0 then index0 + of_nat (length pages) else index0)
      in if index <s 0
         then Inl (index_error ''Accessing nonexistent PDF page number'')
         else
           (let uindex = index
            in if uindex < of_nat (length pages) then vector_at pages uindex
               else Inl (index_error ''Accessing nonexistent PDF page number'')))"



definition deletePage :: "PageList \<Rightarrow> size_t \<Rightarrow> state \<Rightarrow> (exn + unit) \<times> state" where
  "deletePage this index st =
     (case getPage this index st of
        Inl e \<Rightarrow> (Inl e, st)
      | Inr page \<Rightarrow>
          (case removePage page (heap st (qpdf this)) of
             Inl e \<Rightarrow> (Inl e, st)
           | Inr q \<Rightarrow> (Inr (), update_qpdf this q st)))"

text \<open>\<open>insertPage(size_t, QPDFObjectHandle)\<close>\<close>

definition insertPage ::
  "PageList \<Rightarrow> size_t \<Rightarrow> QPDFObjectHandle \<Rightarrow> state \<Rightarrow> (exn + unit) \<times> state" where
  "insertPage this index page0 st =
     (let page_owner = getOwningQPDF page0;
          (page, st1) =
            (if page_owner = Some (getQPDF this)
             then (case makeIndirectObject (qpdf this) page0 (heap st (qpdf this)) of
                     (copy, q) \<Rightarrow> (copy, update_qpdf this q st))
             else (page0, st\<lparr>inc_refs := page_owner # inc_refs st\<rparr>))
      in if index \<noteq> count this st1 then
           (case getPage this index st1 of
              Inl e \<Rightarrow> (Inl e, st1)
            | Inr refpage \<Rightarrow>
                (case addPageAt page True refpage (heap st1 (qpdf this)) of
                   Inl e \<Rightarrow> (Inl e, st1)
                 | Inr q \<Rightarrow> (Inr (), update_qpdf this q st1)))
         else
           (case addPage page False (heap st1 (qpdf this)) of
              Inl e \<Rightarrow> (Inl e, st1)
            | Inr q \<Rightarrow> (Inr (), update_qpdf this q st1)))"

text \<open>\<open>insertPage(size_t, py::handle)\<close>\<close>

definition insertPage_obj ::
  "PageList \<Rightarrow> size_t \<Rightarrow> pyobject \<Rightarrow> state \<Rightarrow> (exn + unit) \<times> state" where
  "insertPage_obj this index obj st =
     (case obj of
        PyOther \<Rightarrow> (Inl (type_error ''only pages can be inserted''), st)
      | PyObjectHandle page \<Rightarrow>
          (if \<not> isPageObject page then (Inl (type_error ''only pages can be inserted''), st)
           else insertPage this index page st))"

definition setPage :: "PageList \<Rightarrow> size_t \<Rightarrow> pyobject \<Rightarrow> state \<Rightarrow> (exn + unit) \<times> state" where
  "setPage this index page st =
     (case insertPage_obj this index page st of
        (Inl e, st1) \<Rightarrow> (Inl e, st1)
      | (Inr _, st1) \<Rightarrow>
          (if index \<noteq> count this st1 then deletePage this (index + 1) st1
           else (Inr (), st1)))"

text \<open>The first loop of \<open>setPagesFromIterable\<close>: check every item, collect it.\<close>

fun unpack_iterable :: "pyobject list \<Rightarrow> pyobject list \<Rightarrow> exn + pyobject list" where
  "unpack_iterable [] results = Inr results"
| "unpack_iterable (x # it) results =
     (case assert_pyobject_is_page x of
        Inl e \<Rightarrow> Inl e
      | Inr _ \<Rightarrow> unpack_iterable it (results @ [x]))"

definition setPagesFromIterable ::
  "PageList \<Rightarrow> pyslice \<Rightarrow> pyobject list \<Rightarrow> state \<Rightarrow> (exn + unit) \<times> state" where
  "setPagesFromIterable this sl other st =
     (case compute sl (count this st) of
        None \<Rightarrow> (Inl error_already_set, st)
      | Some (start, stop, step, slicelength) \<Rightarrow>
          (case unpack_iterable other [] of
             Inl e \<Rightarrow> (Inl e, st)
           | Inr results \<Rightarrow>
               (if step \<noteq> 1 then
                  (if of_nat (length results) \<noteq> slicelength then
                     (Inl (value_error
                        (''attempt to assign sequence of length '' @
                         to_string (length results) @
                         '' to extended slice of size '' @
                         to_string (unat slicelength))), st)
                   else
                     for_each [0..<unat slicelength]
                       (\<lambda>i. setPage this (start + of_nat i * step) (results ! i)) st)
                else
                  (case for_each [0..<length results]
                          (\<lambda>i. insertPage_obj this (start + of_nat i) (results ! i)) st of
                     (Inl e, st1) \<Rightarrow> (Inl e, st1)
                   | (Inr _, st1) \<Rightarrow>
                       (let del_start = start + of_nat (length results)
                        in for_each [0..<unat slicelength]
                             (\<lambda>i. deletePage this del_start) st1)))))"

subsection \<open>The bindings of init\_pagelist\<close>

definition p :: "PageList \<Rightarrow> size_t \<Rightarrow> state \<Rightarrow> exn + QPDFObjectHandle" where
  "p pl index st =
     (if index = 0 then Inl (index_error ''can't access page 0 in 1-based indexing'')
      else getPage pl (index - 1) st)"


definition append_page :: "PageList \<Rightarrow> pyobject \<Rightarrow> state \<Rightarrow> (exn + unit) \<times> state" where
  "append_page pl page st = insertPage_obj pl (count pl st) page st"


subsection \<open>Descriptions of states and example documents\<close>

text \<open>
  \<open>mk this st ps k rs\<close> is the state \<open>st\<close> in which the document of \<open>this\<close> has the
  pages \<open>ps\<close> and the next free object number \<open>k\<close>, and \<open>rs\<close> are the references
  placed so far. \<open>stage a k h\<close> is the handle that \<open>insertPage\<close> hands to the engine for
  the handle \<open>h\<close>: a copy numbered \<open>k\<close> when \<open>h\<close> belongs to the document \<open>a\<close>, and
  \<open>h\<close> itself otherwise.
\<close>

definition mk ::
  "PageList \<Rightarrow> state \<Rightarrow> QPDFObjectHandle list \<Rightarrow> nat \<Rightarrow> nat option list \<Rightarrow> state" where
  "mk this st ps k rs =
     \<lparr>heap = (heap st)(qpdf this := \<lparr>getAllPages = ps, next_obj = k\<rparr>), inc_refs = rs\<rparr>"

definition stage :: "nat \<Rightarrow> nat \<Rightarrow> QPDFObjectHandle \<Rightarrow> QPDFObjectHandle" where
  "stage a k h =
     (if getOwningQPDF h = Some a then h\<lparr>getOwningQPDF := Some a, getObjGen := k\<rparr> else h)"

text \<open>
  A document at address 0 with the pages A, B and C, the pages F and G of the document at
  address 1, an object N of the document at address 1 that is not a page, and a page list
  bound to the document at address 0. In the states \<open>st_AF\<close> and \<open>st_FB\<close> the page F
  has been transplanted into the document at address 0, whose pages were A in \<open>st_A\<close>
  and B in \<open>st_B\<close>.
\<close>

definition pageA :: QPDFObjectHandle where
  "pageA = \<lparr>getOwningQPDF = Some 0, getObjGen = 1, isPageObject = True, contents = 10\<rparr>"

definition pageB :: QPDFObjectHandle where
  "pageB = \<lparr>getOwningQPDF = Some 0, getObjGen = 2, isPageObject = True, contents = 20\<rparr>"

definition pageC :: QPDFObjectHandle where
  "pageC = \<lparr>getOwningQPDF = Some 0, getObjGen = 3, isPageObject = True, contents = 30\<rparr>"

definition pageF :: QPDFObjectHandle where
  "pageF = \<lparr>getOwningQPDF = Some 1, getObjGen = 1, isPageObject = True, contents = 40\<rparr>"

definition pageG :: QPDFObjectHandle where
  "pageG = \<lparr>getOwningQPDF = Some 1, getObjGen = 2, isPageObject = True, contents = 50\<rparr>"

definition objN :: QPDFObjectHandle where
  "objN = \<lparr>getOwningQPDF = Some 1, getObjGen = 3, isPageObject = False, contents = 60\<rparr>"

definition empty_state :: state where
  "empty_state = \<lparr>heap = (\<lambda>a. \<lparr>getAllPages = [], next_obj = 1\<rparr>), inc_refs = []\<rparr>"

definition pl0 :: PageList where
  "pl0 = \<lparr>iterpos = 0, qpdf = 0\<rparr>"

definition st_ABC :: state where
  "st_ABC = mk pl0 empty_state [pageA, pageB, pageC] 4 []"

definition st_A :: state where
  "st_A = mk pl0 empty_state [pageA] 2 []"

definition st_AF :: state where
  "st_AF = mk pl0 empty_state [pageA, pageF] 2 [Some 1]"

definition st_B :: state where
  "st_B = mk pl0 empty_state [pageB] 3 []"

definition st_FB :: state where
  "st_FB = mk pl0 empty_state [pageF, pageB] 3 [Some 1]"

text \<open>
  \<open>fresh_ids\<close>: every page of the collection that belongs to the bound document has an
  object number below the next free one, so that a new indirect object is none of them.
\<close>

definition fresh_ids :: "PageList \<Rightarrow> state \<Rightarrow> bool" where
  "fresh_ids this st \<longleftrightarrow>
     (\<forall>h \<in> set (pages_of this st).
        getOwningQPDF h = Some (qpdf this) \<longrightarrow> getObjGen h < next_obj (heap st (qpdf this)))"

text \<open>
  What the insertion loop of a slice assignment hands to the engine for the source
  handles \<open>hs\<close>, in order: \<open>stage_all a k hs\<close> are the handles placed (every handle of
  the document \<open>a\<close> is replaced by a copy, numbered from \<open>k\<close> on), \<open>copies_made\<close> is
  the number of copies and \<open>refs_taken\<close> are the references placed on the owners of
  the other handles, newest first.
\<close>

fun stage_all :: "nat \<Rightarrow> nat \<Rightarrow> QPDFObjectHandle list \<Rightarrow> QPDFObjectHandle list" where
  "stage_all a k [] = []"
| "stage_all a k (h # hs) =
     stage a k h # stage_all a (if getOwningQPDF h = Some a then Suc k else k) hs"

definition copies_made :: "nat \<Rightarrow> QPDFObjectHandle list \<Rightarrow> nat" where
  "copies_made a hs = length (filter (\<lambda>h. getOwningQPDF h = Some a) hs)"

definition refs_taken :: "nat \<Rightarrow> QPDFObjectHandle list \<Rightarrow> nat option list" where
  "refs_taken a hs = rev (map getOwningQPDF (filter (\<lambda>h. getOwningQPDF h \<noteq> Some a) hs))"

text \<open>
  \<open>transplants_new a ps hs\<close>: the handles of \<open>hs\<close> that do not belong to the document
  \<open>a\<close> are pairwise different objects, and none of them is in the collection \<open>ps\<close>.
  These are the handles that \<open>insertPage\<close> passes to the engine as they are.
\<close>

definition transplants_new ::
  "nat \<Rightarrow> QPDFObjectHandle list \<Rightarrow> QPDFObjectHandle list \<Rightarrow> bool" where
  "transplants_new a ps hs \<longleftrightarrow>
     distinct (map ident (filter (\<lambda>h. getOwningQPDF h \<noteq> Some a) hs)) \<and>
     (\<forall>h \<in> set hs. getOwningQPDF h \<noteq> Some a \<longrightarrow> ident h \<notin> ident ` set ps)"


section \<open>Properties\<close>

subsection \<open>Signed and unsigned readings of 64-bit words\<close>

lemma unat_of_nat64: "n < 2 ^ 64 \<Longrightarrow> unat (of_nat n :: 64 word) = n"
  by (simp add: unat_of_nat)

lemma sint64: "sint (i :: 64 word) = (if uint i < 2 ^ 63 then uint i else uint i - 2 ^ 64)"
proof -
  have a: "sint i = (uint i + 2 ^ 63) mod 2 ^ 64 - 2 ^ 63"
    using int_word_sint [where 'a = 64, of "uint i"] by simp
  have b: "0 \<le> uint i" and c: "uint i < 2 ^ 64"
    using uint_bounded [of i] by simp_all
  show ?thesis
  proof (cases "uint i < 2 ^ 63")
    case True
    then have "(uint i + 2 ^ 63) mod 2 ^ 64 = uint i + 2 ^ 63"
      using b by (simp add: mod_pos_pos_trivial)
    with a True show ?thesis by simp
  next
    case False
    then have "(uint i + 2 ^ 63) mod 2 ^ 64 = uint i + 2 ^ 63 - 2 ^ 64"
      using c by (simp add: mod_pos_geq)
    with a False show ?thesis by simp
  qed
qed

lemma sless0_64: "(i :: 64 word) <s 0 \<longleftrightarrow> 2 ^ 63 \<le> uint i"
  using uint_bounded [of i] by (simp add: word_sless_alt sint64)

lemma uint_of_nat64: "n < 2 ^ 64 \<Longrightarrow> uint (of_nat n :: 64 word) = int n"
  using unat_of_nat64 [of n] by (simp add: uint_nat)
  
lemma uint_add64: "uint (a + b :: 64 word) = (uint a + uint b) mod 2 ^ 64"
  by (simp add: uint_word_ariths)

lemma mod_wrap: "(m::int) \<le> x \<Longrightarrow> x < 2 * m \<Longrightarrow> x mod m = x - m"
proof -
  assume a: "m \<le> x" "x < 2 * m"
  then have "0 \<le> x - m" "x - m < m" by simp_all
  then have "(x - m) mod m = x - m" by (rule mod_pos_pos_trivial)
  then show ?thesis by (simp only: minus_mod_self2)
qed

lemma int_less_63: "n < 2 ^ 63 \<Longrightarrow> int n < 9223372036854775808"
  using of_nat_less_iff [of n "2 ^ 63", where 'a = int] by simp

lemma uint_less_64: "uint (i :: 64 word) < 18446744073709551616"
  using uint_bounded [of i] by simp

lemma uint_add_wrap: fixes i :: "64 word" assumes n: "n < (2::nat) ^ 63" and f: "\<not> uint i + int n < 2 ^ 64"
  shows "uint (i + of_nat n) = uint i + int n - 2 ^ 64"
proof -
  have "uint i + int n < 2 * 18446744073709551616"
    using uint_less_64 [of i] int_less_63 [OF n] by linarith
  moreover have "(18446744073709551616 :: int) \<le> uint i + int n" using f by simp
  ultimately have "(uint i + int n) mod 18446744073709551616 = uint i + int n - 18446744073709551616"
    by (rule mod_wrap [rotated])
  moreover have "uint (of_nat n :: 64 word) = int n" using n by (simp add: uint_of_nat64)
  ultimately show ?thesis by (simp add: uint_add64)
qed

subsection \<open>Reading a page\<close>

lemma uint_add_nowrap: fixes i :: "64 word" assumes n: "n < (2::nat) ^ 63" and f: "uint i + int n < 2 ^ 64"
  shows "uint (i + of_nat n) = uint i + int n"
proof -
  have "0 \<le> uint i + int n" by simp
  then have "(uint i + int n) mod 18446744073709551616 = uint i + int n"
    using f by (intro mod_pos_pos_trivial) simp_all
  moreover have "uint (of_nat n :: 64 word) = int n" using n by (simp add: uint_of_nat64)
  ultimately show ?thesis by (simp add: uint_add64)
qed

lemma unat_less_iff: "unat (i :: 64 word) < n \<longleftrightarrow> uint i < int n"
  using of_nat_less_iff [of "unat i" n, where 'a = int] by simp

lemma word_less_len: "n < 2 ^ 63 \<Longrightarrow> (i :: 64 word) < of_nat n \<longleftrightarrow> uint i < int n"
  by (simp add: word_less_alt uint_of_nat64)

lemma getPage_nonneg_inside:
  assumes "length (getAllPages (heap st (qpdf this))) < 2 ^ 63"
    and "\<not> i <s 0" and "uint i < int (length (getAllPages (heap st (qpdf this))))"
  shows "getPage this i st = Inr (getAllPages (heap st (qpdf this)) ! unat i)"
  using assms by (simp add: getPage_def Let_def vector_at_def word_less_len unat_less_iff)

lemma getPage_nonneg_outside:
  assumes "length (getAllPages (heap st (qpdf this))) < 2 ^ 63"
    and "\<not> i <s 0" and "int (length (getAllPages (heap st (qpdf this)))) \<le> uint i"
  shows "getPage this i st = Inl (index_error ''Accessing nonexistent PDF page number'')"
  using assms by (simp add: getPage_def Let_def word_less_len)

lemma getPage_neg_below:
  assumes len: "length (getAllPages (heap st (qpdf this))) < 2 ^ 63"
    and neg: "i <s 0" and f: "uint i + int (length (getAllPages (heap st (qpdf this)))) < 2 ^ 64"
  shows "getPage this i st = Inl (index_error ''Accessing nonexistent PDF page number'')"
proof -
  have "uint (i + of_nat (length (getAllPages (heap st (qpdf this))))) =
      uint i + int (length (getAllPages (heap st (qpdf this))))"
    by (rule uint_add_nowrap [OF len f])
  moreover have "2 ^ 63 \<le> uint i" using neg by (simp only: sless0_64)
  ultimately have "2 ^ 63 \<le> uint (i + of_nat (length (getAllPages (heap st (qpdf this)))))"
    by simp
  then have "i + of_nat (length (getAllPages (heap st (qpdf this)))) <s 0"
    by (simp only: sless0_64)
  then show ?thesis using neg by (simp add: getPage_def Let_def)
qed

lemma getPage_neg_inside:
  assumes len: "length (getAllPages (heap st (qpdf this))) < 2 ^ 63"
    and neg: "i <s 0" and f: "\<not> uint i + int (length (getAllPages (heap st (qpdf this)))) < 2 ^ 64"
  shows "getPage this i st = Inr (getAllPages (heap st (qpdf this)) !
     nat (uint i + int (length (getAllPages (heap st (qpdf this)))) - 2 ^ 64))"
proof -
  define n where "n = length (getAllPages (heap st (qpdf this)))"
  define j where "j = i + of_nat n"
  have n: "n < 2 ^ 63" using len by (simp add: n_def)
  have f': "\<not> uint i + int n < 2 ^ 64" using f by (simp add: n_def)
  have uj: "uint j = uint i + int n - 2 ^ 64"
    unfolding j_def by (rule uint_add_wrap [OF n f'])
  have "uint j < int n" using uj uint_less_64 [of i] by simp
  moreover have "int n < 9223372036854775808" by (rule int_less_63 [OF n])
  ultimately have "uint j < 2 ^ 63" by simp
  then have nn: "\<not> j <s 0" by (simp only: sless0_64)
  have lt: "j < of_nat n" using \<open>uint j < int n\<close> n by (simp add: word_less_len)
  have ul: "unat j < n" using \<open>uint j < int n\<close> by (simp only: unat_less_iff)
  have uu: "unat j = nat (uint i + int n - 2 ^ 64)"
    using uj by (simp only: unat_eq_nat_uint)
  have "getPage this i st = Inr (getAllPages (heap st (qpdf this)) ! unat j)"
    using neg nn lt ul
    unfolding getPage_def Let_def vector_at_def n_def [symmetric] j_def [symmetric]
    by simp
  then show ?thesis by (simp only: uu n_def)
qed

lemma getPage_int:
  assumes len: "length (getAllPages (heap st (qpdf this))) < 2 ^ 63"
  shows "getPage this i st =
    (let n = int (length (getAllPages (heap st (qpdf this))));
         j = (if sint i < 0 then sint i + n else sint i)
     in if j < 0 \<or> n \<le> j then Inl (index_error ''Accessing nonexistent PDF page number'')
        else Inr (getAllPages (heap st (qpdf this)) ! nat j))"
proof -
  define n where "n = int (length (getAllPages (heap st (qpdf this))))"
  have n0: "0 \<le> n" by (simp add: n_def)
  have n63: "n < 9223372036854775808" unfolding n_def by (rule int_less_63 [OF len])
  have u64: "uint i < 18446744073709551616" by (rule uint_less_64)
  have u0: "0 \<le> uint i" by simp
  show ?thesis
  proof (cases "i <s 0")
    case False
    then have small: "uint i < 9223372036854775808" by (simp add: sless0_64)
    then have s: "sint i = uint i" by (simp add: sint64)
    show ?thesis
    proof (cases "uint i < n")
      case True
      then have "getPage this i st = Inr (getAllPages (heap st (qpdf this)) ! unat i)"
        unfolding n_def by (intro getPage_nonneg_inside len False)
      moreover have "nat (uint i) = unat i" by simp
      ultimately show ?thesis using True u0 by (simp add: Let_def s n_def [symmetric])
    next
      case ge: False
      then have "getPage this i st = Inl (index_error ''Accessing nonexistent PDF page number'')"
        unfolding n_def by (intro getPage_nonneg_outside len False) simp
      then show ?thesis using ge by (simp add: Let_def s n_def [symmetric])
    qed
  next
    case True
    then have big: "9223372036854775808 \<le> uint i" by (simp add: sless0_64)
    then have s: "sint i = uint i - 18446744073709551616" by (simp add: sint64)
    have sneg: "sint i < 0" using s u64 by simp
    show ?thesis
    proof (cases "uint i + n < 18446744073709551616")
      case lt: True
      then have "getPage this i st = Inl (index_error ''Accessing nonexistent PDF page number'')"
        unfolding n_def by (intro getPage_neg_below len True) simp
      then show ?thesis using lt sneg by (simp add: Let_def s n_def [symmetric])
    next
      case ge: False
      then have "getPage this i st = Inr (getAllPages (heap st (qpdf this)) !
          nat (uint i + n - 2 ^ 64))"
        unfolding n_def by (intro getPage_neg_inside len True) simp
      moreover have "uint i + n - 18446744073709551616 < n" using u64 by simp
      moreover have sn: "sint i + n = uint i + n - 18446744073709551616"
        using s by simp
      ultimately show ?thesis using ge sneg by (simp add: Let_def sn n_def [symmetric])
    qed
  qed
qed


lemma getPage_nat:
  assumes "length (getAllPages (heap st (qpdf this))) < 2 ^ 63"
    and "unat i < length (getAllPages (heap st (qpdf this)))"
  shows "getPage this i st = Inr (getAllPages (heap st (qpdf this)) ! unat i)"
proof -
  have "uint i < 2 ^ 63" using assms of_nat_less_iff [of "unat i" "2 ^ 63", where 'a = int] by simp
  then have s: "sint i = uint i" by (simp add: sint64)
  have "int (unat i) < int (length (getAllPages (heap st (qpdf this))))"
    using assms(2) by (simp del: of_nat_unat)
  then have "uint i < int (length (getAllPages (heap st (qpdf this))))" by simp
  moreover have "nat (uint i) = unat i" by simp
  ultimately show ?thesis
    by (simp add: getPage_int [OF assms(1)] s Let_def)
qed

lemma getPage_beyond:
  assumes "length (getAllPages (heap st (qpdf this))) < 2 ^ 63"
    and "length (getAllPages (heap st (qpdf this))) \<le> unat i" and "unat i < 2 ^ 63"
  shows "getPage this i st = Inl (index_error ''Accessing nonexistent PDF page number'')"
proof -
  have "uint i < 2 ^ 63" using assms of_nat_less_iff [of "unat i" "2 ^ 63", where 'a = int] by simp
  then have s: "sint i = uint i" by (simp add: sint64)
  have "int (length (getAllPages (heap st (qpdf this)))) \<le> int (unat i)"
    using assms(2) by (simp del: of_nat_unat)
  then have "int (length (getAllPages (heap st (qpdf this)))) \<le> uint i" by simp
  then show ?thesis
    by (simp add: getPage_int [OF assms(1)] s Let_def)
qed


lemma same_object_ident: "same_object h h' \<longleftrightarrow> ident h = ident h'"
  by (simp add: same_object_def ident_def)

lemma findPage_at:
  "i < length ps \<Longrightarrow> ident (ps ! i) \<notin> ident ` set (take i ps) \<Longrightarrow> findPage ps (ps ! i) = Some i"
proof (induction ps arbitrary: i)
  case Nil
  then show ?case by simp
next
  case (Cons a ps)
  show ?case
  proof (cases i)
    case 0
    then show ?thesis by (simp add: same_object_ident)
  next
    case (Suc j)
    with Cons.prems have "j < length ps" "ident (ps ! j) \<notin> ident ` set (take j ps)"
      "ident a \<noteq> ident (ps ! j)" by auto
    with Cons.IH [of j] Suc show ?thesis by (simp add: same_object_ident)
  qed
qed

lemma findPage_bound: "findPage ps h = Some i \<Longrightarrow> i < length ps"
  by (induction ps arbitrary: i) (auto split: if_splits option.splits)

lemma findPage_mem: "h \<in> set ps \<Longrightarrow> findPage ps h \<noteq> None"
  by (induction ps) (auto simp: same_object_ident split: option.splits)


lemma mk_id: "mk this st (pages_of this st) (next_obj (heap st (qpdf this))) (inc_refs st) = st"
proof -
  have r: "\<lparr>getAllPages = getAllPages q, next_obj = next_obj q\<rparr> = q" for q :: QPDF
    by (cases q) simp
  have "(heap st)(qpdf this := \<lparr>getAllPages = getAllPages (heap st (qpdf this)),
       next_obj = next_obj (heap st (qpdf this))\<rparr>) = heap st"
    by (simp add: r)
  then show ?thesis by (cases st) (simp add: mk_def pages_of_def)
qed

lemma mk_mk: "mk this (mk this st ps k rs) ps' k' rs' = mk this st ps' k' rs'"
  by (simp add: mk_def)

lemma mk_sel [simp]:
  "getAllPages (heap (mk this st ps k rs) (qpdf this)) = ps"
  "next_obj (heap (mk this st ps k rs) (qpdf this)) = k"
  "inc_refs (mk this st ps k rs) = rs"
  "pages_of this (mk this st ps k rs) = ps"
  "a \<noteq> qpdf this \<Longrightarrow> heap (mk this st ps k rs) a = heap st a"
  by (simp_all add: mk_def pages_of_def)

lemma heap_mk: "heap (mk this st ps k rs) (qpdf this) = \<lparr>getAllPages = ps, next_obj = k\<rparr>"
  by (simp add: mk_def)

lemma upd_mk: "update_qpdf this q (mk this st ps k rs) = mk this st (getAllPages q) (next_obj q) rs"
  by (cases q) (simp add: mk_def update_qpdf_def)

lemma count_mk: "count this (mk this st ps k rs) = of_nat (length ps)"
  by (simp add: count_def)


lemma word_eq_len: "n < 2 ^ 63 \<Longrightarrow> (i = (of_nat n :: 64 word)) \<longleftrightarrow> unat i = n"
  using unat_of_nat64 [of n] by (auto simp: word_unat_eq_iff)


subsection \<open>One insertion, one deletion\<close>

lemma findPage_None: "findPage ps h = None \<longleftrightarrow> ident h \<notin> ident ` set ps"
  by (induction ps) (auto simp: same_object_ident split: option.splits)

lemma bookkeeping_mk:
  "(if getOwningQPDF h = Some (getQPDF this)
    then (case makeIndirectObject (qpdf this) h (heap (mk this st ps k rs) (qpdf this)) of
            (copy, q) \<Rightarrow> (copy, update_qpdf this q (mk this st ps k rs)))
    else (h, (mk this st ps k rs)\<lparr>inc_refs := getOwningQPDF h # inc_refs (mk this st ps k rs)\<rparr>))
   = (stage (qpdf this) k h,
      mk this st ps (if getOwningQPDF h = Some (qpdf this) then Suc k else k)
        (if getOwningQPDF h = Some (qpdf this) then rs else getOwningQPDF h # rs))"
  by (simp add: getQPDF_def makeIndirectObject_def update_qpdf_def mk_def stage_def)

lemma insertPage_mk:
  assumes len: "length ps < 2 ^ 63" and idx: "unat index \<le> length ps"
    and anchor: "unat index < length ps \<longrightarrow>
       ident (ps ! unat index) \<notin> ident ` set (take (unat index) ps)"
    and new: "ident (stage (qpdf this) k h) \<notin> ident ` set ps"
  shows "insertPage this index h (mk this st ps k rs) =
    (Inr (), mk this st (take (unat index) ps @ [stage (qpdf this) k h] @ drop (unat index) ps)
       (if getOwningQPDF h = Some (qpdf this) then Suc k else k)
       (if getOwningQPDF h = Some (qpdf this) then rs else getOwningQPDF h # rs))"
proof -
  define st1 where "st1 = mk this st ps
       (if getOwningQPDF h = Some (qpdf this) then Suc k else k)
       (if getOwningQPDF h = Some (qpdf this) then rs else getOwningQPDF h # rs)"
  define k' where "k' = (if getOwningQPDF h = Some (qpdf this) then Suc k else k)"
  have cnt: "count this st1 = of_nat (length ps)" by (simp add: st1_def count_mk)
  have pg: "getAllPages (heap st1 (qpdf this)) = ps" by (simp add: st1_def)
  have hp: "heap st1 (qpdf this) = \<lparr>getAllPages = ps, next_obj = k'\<rparr>"
    by (simp add: st1_def heap_mk k'_def)
  have nw: "findPage ps (stage (qpdf this) k h) = None"
    using new by (simp add: findPage_None)
  show ?thesis
  proof (cases "unat index = length ps")
    case True
    then have eq: "index = count this st1" using len by (simp add: cnt word_eq_len)
    have ap: "addPage (stage (qpdf this) k h) False (heap st1 (qpdf this)) =
        Inr \<lparr>getAllPages = ps @ [stage (qpdf this) k h], next_obj = k'\<rparr>"
      by (simp add: addPage_def hp nw)
    show ?thesis
      unfolding insertPage_def Let_def bookkeeping_mk st1_def [symmetric]
      using True by (simp add: eq ap) (simp add: st1_def upd_mk k'_def)
  next
    case False
    then have lt: "unat index < length ps" using idx by simp
    have ne: "index \<noteq> count this st1" using False len by (simp add: cnt word_eq_len)
    have "getPage this index st1 = Inr (getAllPages (heap st1 (qpdf this)) ! unat index)"
      by (rule getPage_nat) (use len lt in \<open>simp_all add: pg\<close>)
    then have gp: "getPage this index st1 = Inr (ps ! unat index)"
      by (simp add: pg)
    have fp: "findPage ps (ps ! unat index) = Some (unat index)"
      using anchor lt by (intro findPage_at) simp_all
    have ap: "addPageAt (stage (qpdf this) k h) True (ps ! unat index) (heap st1 (qpdf this)) =
       Inr \<lparr>getAllPages = take (unat index) ps @ [stage (qpdf this) k h] @ drop (unat index) ps,
            next_obj = k'\<rparr>"
      by (simp add: addPageAt_def hp fp nw Let_def)
    show ?thesis
      unfolding insertPage_def Let_def bookkeeping_mk st1_def [symmetric]
      using ne by (simp add: gp ap) (simp add: st1_def upd_mk k'_def)
  qed
qed

text \<open>
  A handle whose object is already in the collection: the copy has been made or the
  reference has been taken, the engine refuses the handle, the pages stay as they are.
\<close>

lemma insertPage_refused_mk:
  assumes len: "length ps < 2 ^ 63" and idx: "unat index \<le> length ps"
    and dup: "ident (stage (qpdf this) k h) \<in> ident ` set ps"
  shows "insertPage this index h (mk this st ps k rs) =
    (Inl duplicate_page, mk this st ps
       (if getOwningQPDF h = Some (qpdf this) then Suc k else k)
       (if getOwningQPDF h = Some (qpdf this) then rs else getOwningQPDF h # rs))"
proof -
  define st1 where "st1 = mk this st ps
       (if getOwningQPDF h = Some (qpdf this) then Suc k else k)
       (if getOwningQPDF h = Some (qpdf this) then rs else getOwningQPDF h # rs)"
  define k' where "k' = (if getOwningQPDF h = Some (qpdf this) then Suc k else k)"
  have cnt: "count this st1 = of_nat (length ps)" by (simp add: st1_def count_mk)
  have pg: "getAllPages (heap st1 (qpdf this)) = ps" by (simp add: st1_def)
  have hp: "heap st1 (qpdf this) = \<lparr>getAllPages = ps, next_obj = k'\<rparr>"
    by (simp add: st1_def heap_mk k'_def)
  obtain d where nw: "findPage ps (stage (qpdf this) k h) = Some d"
    using dup findPage_None [of ps "stage (qpdf this) k h"] by auto
  show ?thesis
  proof (cases "unat index = length ps")
    case True
    then have eq: "index = count this st1" using len by (simp add: cnt word_eq_len)
    have ap: "addPage (stage (qpdf this) k h) False (heap st1 (qpdf this)) = Inl duplicate_page"
      by (simp add: addPage_def hp nw)
    show ?thesis
      unfolding insertPage_def Let_def bookkeeping_mk st1_def [symmetric]
      by (simp add: eq ap)
  next
    case False
    then have lt: "unat index < length ps" using idx by simp
    have ne: "index \<noteq> count this st1" using False len by (simp add: cnt word_eq_len)
    have "getPage this index st1 = Inr (getAllPages (heap st1 (qpdf this)) ! unat index)"
      by (rule getPage_nat) (use len lt in \<open>simp_all add: pg\<close>)
    then have gp: "getPage this index st1 = Inr (ps ! unat index)"
      by (simp add: pg)
    have "ps ! unat index \<in> set ps" using lt by simp
    then obtain pos where fp: "findPage ps (ps ! unat index) = Some pos"
      using findPage_mem [of "ps ! unat index" ps] by auto
    have ap: "addPageAt (stage (qpdf this) k h) True (ps ! unat index) (heap st1 (qpdf this)) =
       Inl duplicate_page"
      by (simp add: addPageAt_def hp fp nw)
    show ?thesis
      unfolding insertPage_def Let_def bookkeeping_mk st1_def [symmetric]
      using ne by (simp add: gp ap)
  qed
qed

lemma deletePage_mk:
  assumes len: "length ps < 2 ^ 63" and idx: "unat index < length ps"
    and anchor: "ident (ps ! unat index) \<notin> ident ` set (take (unat index) ps)"
  shows "deletePage this index (mk this st ps k rs) =
    (Inr (), mk this st (take (unat index) ps @ drop (Suc (unat index)) ps) k rs)"
proof -
  have "getPage this index (mk this st ps k rs) =
      Inr (getAllPages (heap (mk this st ps k rs) (qpdf this)) ! unat index)"
    by (rule getPage_nat) (use len idx in simp_all)
  then have gp: "getPage this index (mk this st ps k rs) = Inr (ps ! unat index)"
    by simp
  have fp: "findPage ps (ps ! unat index) = Some (unat index)"
    by (rule findPage_at [OF idx anchor])
  show ?thesis
    by (simp add: deletePage_def gp removePage_def heap_mk fp upd_mk)
qed

text \<open>
  Whatever the index and the handle, an insertion leaves the pages as they are or puts
  one handle that is not yet in the collection at some position.
\<close>

lemma insertPage_shape_mk:
  "\<exists>ps'. snd (insertPage this index h (mk this st ps k rs)) =
      mk this st ps' (if getOwningQPDF h = Some (qpdf this) then Suc k else k)
        (if getOwningQPDF h = Some (qpdf this) then rs else getOwningQPDF h # rs)
    \<and> (ps' = ps \<or> (\<exists>j. ident (stage (qpdf this) k h) \<notin> ident ` set ps
          \<and> ps' = take j ps @ [stage (qpdf this) k h] @ drop j ps))"
proof -
  define k' where "k' = (if getOwningQPDF h = Some (qpdf this) then Suc k else k)"
  define rs' where "rs' = (if getOwningQPDF h = Some (qpdf this) then rs else getOwningQPDF h # rs)"
  define st1 where "st1 = mk this st ps k' rs'"
  define x where "x = stage (qpdf this) k h"
  define good where "good st' \<longleftrightarrow> (\<exists>ps'. st' = mk this st ps' k' rs'
      \<and> (ps' = ps \<or> (\<exists>j. ident x \<notin> ident ` set ps \<and> ps' = take j ps @ [x] @ drop j ps)))"
    for st'
  have hp: "heap st1 (qpdf this) = \<lparr>getAllPages = ps, next_obj = k'\<rparr>"
    by (simp add: st1_def heap_mk)
  have upd: "update_qpdf this \<lparr>getAllPages = ps', next_obj = k'\<rparr> st1 = mk this st ps' k' rs'"
    for ps'
    by (simp add: st1_def upd_mk)
  have g1: "good st1" unfolding good_def st1_def by blast
  have a: "good (snd (case addPage x False (heap st1 (qpdf this)) of
                  Inl e \<Rightarrow> (Inl e, st1)
                | Inr q \<Rightarrow> (Inr (), update_qpdf this q st1)))"
  proof (cases "findPage ps x")
    case None
    then have "ident x \<notin> ident ` set ps" by (simp add: findPage_None)
    then have "good (mk this st (ps @ [x]) k' rs')"
      unfolding good_def by (intro exI [of _ "ps @ [x]"] conjI refl disjI2 exI [of _ "length ps"]) simp_all
    then show ?thesis by (simp add: addPage_def hp None upd)
  next
    case (Some pos)
    then show ?thesis using g1 by (simp add: addPage_def hp)
  qed
  have b: "good (snd (case addPageAt x True r (heap st1 (qpdf this)) of
                       Inl e \<Rightarrow> (Inl e, st1)
                     | Inr q \<Rightarrow> (Inr (), update_qpdf this q st1)))" for r
  proof (cases "findPage ps r")
    case None
    then show ?thesis using g1 by (simp add: addPageAt_def hp)
  next
    case (Some pos)
    show ?thesis
    proof (cases "findPage ps x")
      case None
      then have "ident x \<notin> ident ` set ps" by (simp add: findPage_None)
      then have "good (mk this st (take pos ps @ [x] @ drop pos ps) k' rs')"
        unfolding good_def by blast
      then show ?thesis by (simp add: addPageAt_def hp None Some upd)
    next
      case (Some dup)
      then show ?thesis using g1 \<open>findPage ps r = Some pos\<close> by (simp add: addPageAt_def hp)
    qed
  qed
  have "good (snd (insertPage this index h (mk this st ps k rs)))"
    unfolding insertPage_def Let_def bookkeeping_mk
      k'_def [symmetric] rs'_def [symmetric] st1_def [symmetric] x_def [symmetric]
  proof (cases "index = count this st1")
    case True
    then show "good (snd (case (x, st1) of (page, st1) \<Rightarrow> if index \<noteq> count this st1
          then (case getPage this index st1 of
                  Inl e \<Rightarrow> (Inl e, st1)
                | Inr refpage \<Rightarrow>
                    (case addPageAt page True refpage (heap st1 (qpdf this)) of
                       Inl e \<Rightarrow> (Inl e, st1)
                     | Inr q \<Rightarrow> (Inr (), update_qpdf this q st1)))
          else (case addPage page False (heap st1 (qpdf this)) of
                  Inl e \<Rightarrow> (Inl e, st1)
                | Inr q \<Rightarrow> (Inr (), update_qpdf this q st1))))"
      using a by simp
  next
    case False
    show "good (snd (case (x, st1) of (page, st1) \<Rightarrow> if index \<noteq> count this st1
          then (case getPage this index st1 of
                  Inl e \<Rightarrow> (Inl e, st1)
                | Inr refpage \<Rightarrow>
                    (case addPageAt page True refpage (heap st1 (qpdf this)) of
                       Inl e \<Rightarrow> (Inl e, st1)
                     | Inr q \<Rightarrow> (Inr (), update_qpdf this q st1)))
          else (case addPage page False (heap st1 (qpdf this)) of
                  Inl e \<Rightarrow> (Inl e, st1)
                | Inr q \<Rightarrow> (Inr (), update_qpdf this q st1))))"
    proof (cases "getPage this index st1")
      case (Inl e)
      then show ?thesis using False g1 by simp
    next
      case (Inr r)
      then show ?thesis using False b [of r] by simp
    qed
  qed
  then show ?thesis
    unfolding good_def k'_def rs'_def x_def by simp
qed


lemma deletePage_shape_mk:
  "\<exists>ps'. snd (deletePage this index (mk this st ps k rs)) = mk this st ps' k rs
    \<and> (ps' = ps \<or> (\<exists>j. ps' = take j ps @ drop (Suc j) ps))"
proof (cases "getPage this index (mk this st ps k rs)")
  case (Inl e)
  then have "snd (deletePage this index (mk this st ps k rs)) = mk this st ps k rs"
    by (simp add: deletePage_def)
  then show ?thesis by blast
next
  case (Inr r)
  show ?thesis
  proof (cases "findPage ps r")
    case None
    then have "snd (deletePage this index (mk this st ps k rs)) = mk this st ps k rs"
      using Inr by (simp add: deletePage_def removePage_def heap_mk)
    then show ?thesis by blast
  next
    case (Some pos)
    have "snd (deletePage this index (mk this st ps k rs)) =
        mk this st (take pos ps @ drop (Suc pos) ps) k rs"
      using Inr Some by (simp add: deletePage_def removePage_def heap_mk upd_mk)
    then show ?thesis by blast
  qed
qed

subsection \<open>Insertion and deletion on any state\<close>

lemma distinct_anchor:
  assumes "distinct (map ident ps)" and "i < length ps"
  shows "ident (ps ! i) \<notin> ident ` set (take i ps)"
proof -
  have "ps = take i ps @ ps ! i # drop (Suc i) ps"
    using assms(2) by (rule id_take_nth_drop)
  then have "distinct (map ident (take i ps @ ps ! i # drop (Suc i) ps))"
    using assms(1) by simp
  then show ?thesis by auto
qed

lemma distinct_insert:
  assumes "distinct (map ident ps)" and "ident x \<notin> ident ` set ps"
  shows "distinct (map ident (take i ps @ [x] @ drop i ps))"
proof -
  have e: "map ident ps = map ident (take i ps) @ map ident (drop i ps)"
    by (simp flip: map_append)
  have "distinct (map ident (take i ps) @ map ident (drop i ps))"
    using assms(1) by (simp only: e)
  moreover have "ident x \<notin> ident ` set (take i ps)" "ident x \<notin> ident ` set (drop i ps)"
    using assms(2) by (auto dest: in_set_takeD in_set_dropD)
  ultimately show ?thesis by auto
qed

lemma distinct_delete:
  assumes "distinct (map ident ps)"
  shows "distinct (map ident (take i ps @ drop (Suc i) ps))"
proof -
  have "distinct (map ident (take i ps @ drop i ps))" using assms by simp
  then have d: "distinct (map ident (take i ps) @ map ident (drop i ps))"
    by (simp only: map_append)
  have "set (drop (Suc i) ps) \<subseteq> set (drop i ps)"
    by (rule set_drop_subset_set_drop) simp
  moreover have "distinct (map ident (drop (Suc i) ps))"
    using assms by (simp add: distinct_drop flip: drop_map)
  ultimately show ?thesis using d by auto
qed

lemma ident_stage_own:
  "getOwningQPDF h = Some a \<Longrightarrow> ident (stage a k h) = (Some a, k)"
  by (simp add: stage_def ident_def)

lemma stage_fresh:
  assumes "\<forall>h \<in> set ps. getOwningQPDF h = Some a \<longrightarrow> getObjGen h < k"
    and "getOwningQPDF h = Some a"
  shows "ident (stage a k h) \<notin> ident ` set ps"
proof
  assume "ident (stage a k h) \<in> ident ` set ps"
  then obtain h' where h': "h' \<in> set ps" "ident h' = (Some a, k)"
    using assms(2) by (auto simp: ident_stage_own)
  then have "getOwningQPDF h' = Some a" "getObjGen h' = k" by (simp_all add: ident_def)
  with assms(1) h'(1) show False by auto
qed

lemma stage_new_iff:
  assumes "fresh_ids this st"
  shows "ident (stage (qpdf this) (next_obj (heap st (qpdf this))) h) \<notin>
           ident ` set (pages_of this st)
     \<longleftrightarrow> (getOwningQPDF h = Some (qpdf this) \<or> ident h \<notin> ident ` set (pages_of this st))"
proof (cases "getOwningQPDF h = Some (qpdf this)")
  case True
  then show ?thesis
    using stage_fresh [of "pages_of this st" "qpdf this" "next_obj (heap st (qpdf this))" h] assms
    by (simp add: fresh_ids_def)
next
  case False
  then show ?thesis by (simp add: stage_def)
qed

lemma fresh_ids_mk:
  "fresh_ids this (mk this st ps k rs) \<longleftrightarrow>
     (\<forall>h \<in> set ps. getOwningQPDF h = Some (qpdf this) \<longrightarrow> getObjGen h < k)"
  by (simp add: fresh_ids_def)

lemma insertPage_any:
  assumes len: "length (pages_of this st) < 2 ^ 63"
    and idx: "unat index \<le> length (pages_of this st)"
    and dist: "distinct (map ident (pages_of this st))"
    and new: "ident (stage (qpdf this) (next_obj (heap st (qpdf this))) h) \<notin>
        ident ` set (pages_of this st)"
  shows "insertPage this index h st =
    (Inr (), mk this st
       (take (unat index) (pages_of this st) @
        [stage (qpdf this) (next_obj (heap st (qpdf this))) h] @
        drop (unat index) (pages_of this st))
       (if getOwningQPDF h = Some (qpdf this) then Suc (next_obj (heap st (qpdf this)))
        else next_obj (heap st (qpdf this)))
       (if getOwningQPDF h = Some (qpdf this) then inc_refs st
        else getOwningQPDF h # inc_refs st))"
proof -
  have anchor: "unat index < length (pages_of this st) \<longrightarrow>
      ident (pages_of this st ! unat index) \<notin> ident ` set (take (unat index) (pages_of this st))"
    using dist by (simp add: distinct_anchor)
  show ?thesis
    using insertPage_mk [OF len idx anchor new, of st "inc_refs st"]
    by (simp only: mk_id)
qed

lemma insertPage_refused_any:
  assumes len: "length (pages_of this st) < 2 ^ 63"
    and idx: "unat index \<le> length (pages_of this st)"
    and dup: "ident (stage (qpdf this) (next_obj (heap st (qpdf this))) h) \<in>
        ident ` set (pages_of this st)"
  shows "insertPage this index h st =
    (Inl duplicate_page, mk this st (pages_of this st)
       (if getOwningQPDF h = Some (qpdf this) then Suc (next_obj (heap st (qpdf this)))
        else next_obj (heap st (qpdf this)))
       (if getOwningQPDF h = Some (qpdf this) then inc_refs st
        else getOwningQPDF h # inc_refs st))"
  using insertPage_refused_mk [OF len idx dup, of st "inc_refs st"]
  by (simp only: mk_id)

lemma deletePage_any:
  assumes len: "length (pages_of this st) < 2 ^ 63"
    and idx: "unat index < length (pages_of this st)"
    and dist: "distinct (map ident (pages_of this st))"
  shows "deletePage this index st =
    (Inr (), mk this st
       (take (unat index) (pages_of this st) @ drop (Suc (unat index)) (pages_of this st))
       (next_obj (heap st (qpdf this))) (inc_refs st))"
proof -
  have anchor: "ident (pages_of this st ! unat index) \<notin>
      ident ` set (take (unat index) (pages_of this st))"
    using dist idx by (rule distinct_anchor)
  show ?thesis
    using deletePage_mk [OF len idx anchor, of this st "next_obj (heap st (qpdf this))" "inc_refs st"]
    by (simp only: mk_id)
qed

text \<open>
  The two properties of a state that the statements below rest on are kept by every
  insertion and every deletion, whatever the index and the handle: the pages of the
  collection are pairwise different objects, and those of the bound document have object
  numbers below the next free one.
\<close>

lemma insertPage_invariant:
  assumes dist: "distinct (map ident (pages_of this st))" and fresh: "fresh_ids this st"
  shows "distinct (map ident (pages_of this (snd (insertPage this index h st))))
    \<and> fresh_ids this (snd (insertPage this index h st))"
proof -
  define ps where "ps = pages_of this st"
  define k where "k = next_obj (heap st (qpdf this))"
  define k' where "k' = (if getOwningQPDF h = Some (qpdf this) then Suc k else k)"
  define rs' where "rs' = (if getOwningQPDF h = Some (qpdf this) then inc_refs st
     else getOwningQPDF h # inc_refs st)"
  have st: "mk this st ps k (inc_refs st) = st" by (simp only: ps_def k_def mk_id)
  have old: "\<forall>h' \<in> set ps. getOwningQPDF h' = Some (qpdf this) \<longrightarrow> getObjGen h' < k"
    using fresh by (simp add: fresh_ids_def ps_def k_def)
  obtain ps' where eq: "snd (insertPage this index h st) = mk this st ps' k' rs'"
    and sh: "ps' = ps \<or> (\<exists>j. ident (stage (qpdf this) k h) \<notin> ident ` set ps
          \<and> ps' = take j ps @ [stage (qpdf this) k h] @ drop j ps)"
    using insertPage_shape_mk [of this index h st ps k "inc_refs st"]
    unfolding st k'_def rs'_def by blast
  have kk: "k \<le> k'" by (simp add: k'_def)
  have d: "distinct (map ident ps')"
    using sh dist distinct_insert [of ps "stage (qpdf this) k h"] by (auto simp: ps_def)
  have "getOwningQPDF h' = Some (qpdf this) \<longrightarrow> getObjGen h' < k'" if "h' \<in> set ps'" for h'
  proof (cases "h' \<in> set ps")
    case True
    then show ?thesis using old kk by auto
  next
    case False
    then have "h' = stage (qpdf this) k h"
      using sh that by (auto dest: in_set_takeD in_set_dropD)
    then show ?thesis by (auto simp: stage_def k'_def)
  qed
  then have "fresh_ids this (mk this st ps' k' rs')" by (simp add: fresh_ids_mk)
  then show ?thesis using d by (simp add: eq)
qed

lemma deletePage_invariant:
  assumes dist: "distinct (map ident (pages_of this st))" and fresh: "fresh_ids this st"
  shows "distinct (map ident (pages_of this (snd (deletePage this index st))))
    \<and> fresh_ids this (snd (deletePage this index st))"
proof -
  define ps where "ps = pages_of this st"
  define k where "k = next_obj (heap st (qpdf this))"
  have st: "mk this st ps k (inc_refs st) = st" by (simp only: ps_def k_def mk_id)
  have old: "\<forall>h' \<in> set ps. getOwningQPDF h' = Some (qpdf this) \<longrightarrow> getObjGen h' < k"
    using fresh by (simp add: fresh_ids_def ps_def k_def)
  obtain ps' where eq: "snd (deletePage this index st) = mk this st ps' k (inc_refs st)"
    and sh: "ps' = ps \<or> (\<exists>j. ps' = take j ps @ drop (Suc j) ps)"
    using deletePage_shape_mk [of this index st ps k "inc_refs st"]
    unfolding st by blast
  have d: "distinct (map ident ps')"
    using sh dist distinct_delete [of ps] by (auto simp: ps_def)
  have "set ps' \<subseteq> set ps"
    using sh by (auto dest: in_set_takeD in_set_dropD)
  then have "fresh_ids this (mk this st ps' k (inc_refs st))"
    using old by (auto simp: fresh_ids_mk)
  then show ?thesis using d by (simp add: eq)
qed

lemma nth_insert_shift:
  assumes "i \<le> length ps" and "j < length ps"
  shows "(take i ps @ [x] @ drop i ps) ! (if j < i then j else Suc j) = ps ! j"
proof (cases "j < i")
  case True
  then show ?thesis using assms by (simp add: nth_append)
next
  case False
  then have "Suc j - i = Suc (j - i)" by simp
  then show ?thesis using False assms by (simp add: nth_append min_def)
qed


text \<open>
  A third property of the page collection is kept as well: every handle in it is a page
  object. \<open>insertPage(size_t, py::handle)\<close> lets only page objects through, and a
  deletion adds nothing.
\<close>

lemma insertPage_obj_pages:
  assumes pg: "\<forall>h \<in> set (pages_of this st). isPageObject h"
  shows "\<forall>h \<in> set (pages_of this (snd (insertPage_obj this index obj st))). isPageObject h"
proof (cases obj)
  case PyOther
  then show ?thesis using pg by (simp add: insertPage_obj_def)
next
  case (PyObjectHandle page)
  show ?thesis
  proof (cases "isPageObject page")
    case False
    then show ?thesis using pg PyObjectHandle by (simp add: insertPage_obj_def)
  next
    case True
    define ps where "ps = pages_of this st"
    define k where "k = next_obj (heap st (qpdf this))"
    have st: "mk this st ps k (inc_refs st) = st" by (simp only: ps_def k_def mk_id)
    obtain ps' k' rs' where eq: "snd (insertPage this index page st) = mk this st ps' k' rs'"
      and sh: "ps' = ps \<or> (\<exists>j. ident (stage (qpdf this) k page) \<notin> ident ` set ps
            \<and> ps' = take j ps @ [stage (qpdf this) k page] @ drop j ps)"
      using insertPage_shape_mk [of this index page st ps k "inc_refs st"]
      unfolding st by blast
    have x: "isPageObject (stage (qpdf this) k page)" using True by (simp add: stage_def)
    have "isPageObject h" if "h \<in> set ps'" for h
    proof (cases "h \<in> set ps")
      case True
      then show ?thesis using pg by (simp add: ps_def)
    next
      case False
      then have "h = stage (qpdf this) k page"
        using sh that by (auto dest: in_set_takeD in_set_dropD)
      then show ?thesis using x by simp
    qed
    then show ?thesis using True PyObjectHandle by (simp add: insertPage_obj_def eq)
  qed
qed

lemma deletePage_pages:
  assumes pg: "\<forall>h \<in> set (pages_of this st). isPageObject h"
  shows "\<forall>h \<in> set (pages_of this (snd (deletePage this index st))). isPageObject h"
proof -
  define ps where "ps = pages_of this st"
  define k where "k = next_obj (heap st (qpdf this))"
  have st: "mk this st ps k (inc_refs st) = st" by (simp only: ps_def k_def mk_id)
  obtain ps' where eq: "snd (deletePage this index st) = mk this st ps' k (inc_refs st)"
    and sh: "ps' = ps \<or> (\<exists>j. ps' = take j ps @ drop (Suc j) ps)"
    using deletePage_shape_mk [of this index st ps k "inc_refs st"]
    unfolding st by blast
  have "set ps' \<subseteq> set ps"
    using sh by (auto dest: in_set_takeD in_set_dropD)
  then show ?thesis using pg by (auto simp: eq ps_def)
qed

subsection \<open>Indexed reads\<close>

lemma sint_minus1: "sint (- 1 :: 64 word) = - 1" by simp

lemma sint_neg_len:
  assumes n: "n < (2::nat) ^ 63"
  shows "sint (- of_nat n - 1 :: 64 word) = - int n - 1"
proof -
  have a: "(- of_nat n - 1 :: 64 word) = word_of_int (- int n - 1)" by simp
  have "int n < 9223372036854775808" by (rule int_less_63 [OF n])
  then have "0 \<le> - int n - 1 + 9223372036854775808"
    and "- int n - 1 + 9223372036854775808 < 18446744073709551616" by simp_all
  then have "(- int n - 1 + 9223372036854775808) mod 18446744073709551616 =
      - int n - 1 + 9223372036854775808"
    by (rule mod_pos_pos_trivial)
  then show ?thesis
    unfolding a using int_word_sint [where 'a = 64, of "- int n - 1"] by simp
qed

text \<open>
  C2. \<open>getPage\<close> reads its index as a signed number. A negative index is normalized by
  adding the page count; if the result is still negative, or the normalized index is not
  below the count, the call fails with the out-of-range error; otherwise it returns the
  page at that position. \<open>getPage\<close> is a \<open>const\<close> method and returns no new state. In
  particular, on a list that is not empty \<open>getPage(-1)\<close> is the page at position
  \<open>n - 1\<close>, and \<open>getPage(-n-1)\<close> fails. The page count is below \<open>2^63\<close>.
\<close>

theorem getPage_normalizes:
  assumes len: "length (pages_of this st) < 2 ^ 63"
  shows "getPage this i st =
      (let n = int (length (pages_of this st));
           j = (if sint i < 0 then sint i + n else sint i)
       in if j < 0 \<or> n \<le> j
          then Inl (index_error ''Accessing nonexistent PDF page number'')
          else Inr (pages_of this st ! nat j))
    \<and> (pages_of this st \<noteq> [] \<longrightarrow>
         getPage this (- 1) st = Inr (pages_of this st ! (length (pages_of this st) - 1)))
    \<and> getPage this (- of_nat (length (pages_of this st)) - 1) st =
         Inl (index_error ''Accessing nonexistent PDF page number'')"
proof -
  have len': "length (getAllPages (heap st (qpdf this))) < 2 ^ 63"
    using len by (simp add: pages_of_def)
  note gen = getPage_int [OF len', folded pages_of_def]
  have last: "getPage this (- 1) st = Inr (pages_of this st ! (length (pages_of this st) - 1))"
    if "pages_of this st \<noteq> []"
  proof -
    have "0 < length (pages_of this st)" using that by simp
    then have "nat (int (length (pages_of this st)) - 1) = length (pages_of this st) - 1"
      and "0 < int (length (pages_of this st))" by simp_all
    then show ?thesis by (simp add: gen [of "- 1"] Let_def)
  qed
  have s: "sint (- of_nat (length (pages_of this st)) - 1 :: 64 word) =
      - int (length (pages_of this st)) - 1"
    by (rule sint_neg_len [OF len])
  have below: "getPage this (- of_nat (length (pages_of this st)) - 1) st =
         Inl (index_error ''Accessing nonexistent PDF page number'')"
    unfolding gen [of "- of_nat (length (pages_of this st)) - 1"] Let_def s by simp
  show ?thesis using gen [of i] last below by blast
qed

theorem getPage_normalizes_witness:
  "length (pages_of pl0 st_ABC) < 2 ^ 63
   \<and> getPage pl0 (- 1) st_ABC = Inr pageC
   \<and> getPage pl0 (- 4) st_ABC = Inl (index_error ''Accessing nonexistent PDF page number'')
   \<and> getPage pl0 1 st_ABC = Inr pageB"
proof -
  have h: "length (pages_of pl0 st_ABC) < 2 ^ 63" by (simp add: st_ABC_def)
  have p: "pages_of pl0 st_ABC = [pageA, pageB, pageC]" by (simp add: st_ABC_def)
  show ?thesis
    using getPage_normalizes [OF h, of "- 1"] getPage_normalizes [OF h, of 1]
    by (simp add: p Let_def)
qed

text \<open>
  C9. The accessor \<open>p\<close> is 1-based: \<open>p(0)\<close> fails with an out-of-range error of its own,
  and for every \<open>n\<close> from 1 on \<open>p(n)\<close> is \<open>getPage(n - 1)\<close>; for \<open>n\<close> between 1
  and the page count that is the page at position \<open>n - 1\<close>.
\<close>

theorem p_one_based:
  "p pl 0 st = Inl (index_error ''can't access page 0 in 1-based indexing'')
   \<and> (n \<noteq> 0 \<longrightarrow> p pl n st = getPage pl (n - 1) st)
   \<and> (length (pages_of pl st) < 2 ^ 63 \<and> 1 \<le> unat n \<and> unat n \<le> length (pages_of pl st) \<longrightarrow>
        p pl n st = Inr (pages_of pl st ! (unat n - 1)))"
proof -
  have "p pl n st = Inr (pages_of pl st ! (unat n - 1))"
    if len: "length (pages_of pl st) < 2 ^ 63" and n1: "1 \<le> unat n"
      and n2: "unat n \<le> length (pages_of pl st)"
  proof -
    have ne: "n \<noteq> 0" using n1 by auto
    have u: "unat (n - 1) = unat n - 1" using n1 by (simp add: unat_sub word_le_nat_alt)
    have "getPage pl (n - 1) st = Inr (getAllPages (heap st (qpdf pl)) ! unat (n - 1))"
      by (rule getPage_nat) (use len n1 n2 u in \<open>simp_all add: pages_of_def\<close>)
    then show ?thesis using ne by (simp add: p_def u pages_of_def)
  qed
  then show ?thesis by (simp add: p_def)
qed

theorem p_one_based_witness:
  "(1 :: 64 word) \<noteq> 0 \<and> p pl0 0 st_ABC = Inl (index_error ''can't access page 0 in 1-based indexing'')
   \<and> p pl0 1 st_ABC = Inr pageA"
proof -
  have p: "pages_of pl0 st_ABC = [pageA, pageB, pageC]" by (simp add: st_ABC_def)
  show ?thesis
    using p_one_based [of pl0 st_ABC 1] by (auto simp: p)
qed



subsection \<open>Placement of an inserted page, removal of a page\<close>

text \<open>
  C4. On a page collection of pairwise different page objects with fewer than \<open>2^63\<close>
  pages, \<open>insertPage(index, page)\<close> with \<open>index\<close> at most the count succeeds when the
  handle belongs to the bound document or its object is not yet in the collection. Then
  with \<open>index\<close> equal to the count the page is appended; with \<open>index\<close> below the count it
  is placed at position \<open>index\<close>, before the page that was there, and every page that
  was at a position from \<open>index\<close> on is one position later; the count grows by exactly
  one. The page placed is the fresh copy when the handle belongs to the bound document
  (\<open>stage\<close>). A handle of another document whose object is already in the collection is
  refused by the engine: the call fails with the engine's error and the pages are as
  before. \<open>deletePage\<close> on an index below the count removes the page at that position
  and the count shrinks by exactly one. Both operations keep the two properties of the
  state that are assumed.
\<close>

theorem insertPage_placement:
  assumes len: "length (pages_of this st) < 2 ^ 63"
    and dist: "distinct (map ident (pages_of this st))"
    and fresh: "fresh_ids this st"
  shows "(unat index \<le> length (pages_of this st)
      \<and> (getOwningQPDF page = Some (qpdf this) \<or> ident page \<notin> ident ` set (pages_of this st)) \<longrightarrow>
      fst (insertPage this index page st) = Inr ()
      \<and> pages_of this (snd (insertPage this index page st)) =
          take (unat index) (pages_of this st) @
          [stage (qpdf this) (next_obj (heap st (qpdf this))) page] @
          drop (unat index) (pages_of this st)
      \<and> (unat index = length (pages_of this st) \<longrightarrow>
          pages_of this (snd (insertPage this index page st)) =
            pages_of this st @ [stage (qpdf this) (next_obj (heap st (qpdf this))) page])
      \<and> pages_of this (snd (insertPage this index page st)) ! unat index =
          stage (qpdf this) (next_obj (heap st (qpdf this))) page
      \<and> (\<forall>j < length (pages_of this st).
           pages_of this (snd (insertPage this index page st)) !
             (if j < unat index then j else Suc j) = pages_of this st ! j)
      \<and> length (pages_of this (snd (insertPage this index page st))) =
          length (pages_of this st) + 1)
    \<and> (unat index \<le> length (pages_of this st)
      \<and> getOwningQPDF page \<noteq> Some (qpdf this) \<and> ident page \<in> ident ` set (pages_of this st) \<longrightarrow>
      fst (insertPage this index page st) = Inl duplicate_page
      \<and> pages_of this (snd (insertPage this index page st)) = pages_of this st)
    \<and> (unat index < length (pages_of this st) \<longrightarrow>
      fst (deletePage this index st) = Inr ()
      \<and> pages_of this (snd (deletePage this index st)) =
          take (unat index) (pages_of this st) @ drop (Suc (unat index)) (pages_of this st)
      \<and> length (pages_of this (snd (deletePage this index st))) + 1 =
          length (pages_of this st))
    \<and> distinct (map ident (pages_of this (snd (insertPage this index page st))))
    \<and> fresh_ids this (snd (insertPage this index page st))
    \<and> distinct (map ident (pages_of this (snd (deletePage this index st))))
    \<and> fresh_ids this (snd (deletePage this index st))"
proof -
  have ins: "fst (insertPage this index page st) = Inr ()
      \<and> pages_of this (snd (insertPage this index page st)) =
          take (unat index) (pages_of this st) @
          [stage (qpdf this) (next_obj (heap st (qpdf this))) page] @
          drop (unat index) (pages_of this st)
      \<and> (unat index = length (pages_of this st) \<longrightarrow>
          pages_of this (snd (insertPage this index page st)) =
            pages_of this st @ [stage (qpdf this) (next_obj (heap st (qpdf this))) page])
      \<and> pages_of this (snd (insertPage this index page st)) ! unat index =
          stage (qpdf this) (next_obj (heap st (qpdf this))) page
      \<and> (\<forall>j < length (pages_of this st).
           pages_of this (snd (insertPage this index page st)) !
             (if j < unat index then j else Suc j) = pages_of this st ! j)
      \<and> length (pages_of this (snd (insertPage this index page st))) =
          length (pages_of this st) + 1"
    if idx: "unat index \<le> length (pages_of this st)"
      and ok: "getOwningQPDF page = Some (qpdf this) \<or>
        ident page \<notin> ident ` set (pages_of this st)"
  proof -
    have new: "ident (stage (qpdf this) (next_obj (heap st (qpdf this))) page) \<notin>
        ident ` set (pages_of this st)"
      using ok by (simp only: stage_new_iff [OF fresh])
    note ins = insertPage_any [OF len idx dist new]
    have r: "fst (insertPage this index page st) = Inr ()" by (simp add: ins)
    have eq: "pages_of this (snd (insertPage this index page st)) =
          take (unat index) (pages_of this st) @
          [stage (qpdf this) (next_obj (heap st (qpdf this))) page] @
          drop (unat index) (pages_of this st)"
      by (simp add: ins)
    have ap: "pages_of this (snd (insertPage this index page st)) =
        pages_of this st @ [stage (qpdf this) (next_obj (heap st (qpdf this))) page]"
      if "unat index = length (pages_of this st)"
      using that by (simp add: eq)
    have at: "pages_of this (snd (insertPage this index page st)) ! unat index =
          stage (qpdf this) (next_obj (heap st (qpdf this))) page"
      using idx by (simp add: eq nth_append)
    have sh: "\<forall>j < length (pages_of this st).
           pages_of this (snd (insertPage this index page st)) !
             (if j < unat index then j else Suc j) = pages_of this st ! j"
      unfolding eq using nth_insert_shift [OF idx] by blast
    have ln: "length (pages_of this (snd (insertPage this index page st))) =
          length (pages_of this st) + 1"
      using idx by (simp add: eq)
    show ?thesis using r eq ap at sh ln by (intro conjI impI)
  qed
  have ref: "fst (insertPage this index page st) = Inl duplicate_page
      \<and> pages_of this (snd (insertPage this index page st)) = pages_of this st"
    if idx: "unat index \<le> length (pages_of this st)"
      and no: "getOwningQPDF page \<noteq> Some (qpdf this)"
        "ident page \<in> ident ` set (pages_of this st)"
  proof -
    have dup: "ident (stage (qpdf this) (next_obj (heap st (qpdf this))) page) \<in>
        ident ` set (pages_of this st)"
      using no stage_new_iff [OF fresh, of page] by blast
    show ?thesis by (simp add: insertPage_refused_any [OF len idx dup])
  qed
  have del: "fst (deletePage this index st) = Inr ()
      \<and> pages_of this (snd (deletePage this index st)) =
          take (unat index) (pages_of this st) @ drop (Suc (unat index)) (pages_of this st)
      \<and> length (pages_of this (snd (deletePage this index st))) + 1 =
          length (pages_of this st)"
    if idx: "unat index < length (pages_of this st)"
    using idx by (simp add: deletePage_any [OF len idx dist])
  show ?thesis
    using ins ref del insertPage_invariant [OF dist fresh, of index page]
      deletePage_invariant [OF dist fresh, of index]
    by blast
qed

lemma pages_ABC: "pages_of pl0 st_ABC = [pageA, pageB, pageC]"
  by (simp add: st_ABC_def)

lemma pages_AF: "pages_of pl0 st_AF = [pageA, pageF]"
  by (simp add: st_AF_def)

lemma distinct_ABC: "distinct (map ident [pageA, pageB, pageC])"
  by (simp add: ident_def pageA_def pageB_def pageC_def)

lemma fresh_ABC: "fresh_ids pl0 st_ABC"
  by (simp add: fresh_ids_def st_ABC_def pageA_def pageB_def pageC_def)


lemma stage_F: "stage (qpdf pl0) k pageF = pageF"
  by (simp add: stage_def pageF_def pl0_def)

theorem insertPage_placement_witness:
  "length (pages_of pl0 st_ABC) < 2 ^ 63 \<and> distinct (map ident (pages_of pl0 st_ABC))
   \<and> fresh_ids pl0 st_ABC
   \<and> unat (1 :: 64 word) < length (pages_of pl0 st_ABC)
   \<and> fst (insertPage pl0 1 pageF st_ABC) = Inr ()
   \<and> pages_of pl0 (snd (insertPage pl0 1 pageF st_ABC)) = [pageA, pageF, pageB, pageC]
   \<and> fst (deletePage pl0 1 st_ABC) = Inr ()
   \<and> pages_of pl0 (snd (deletePage pl0 1 st_ABC)) = [pageA, pageC]"
proof -
  have len: "length (pages_of pl0 st_ABC) < 2 ^ 63" by (simp add: pages_ABC)
  have dist: "distinct (map ident (pages_of pl0 st_ABC))"
    by (simp only: pages_ABC distinct_ABC)
  have new: "ident pageF \<notin> ident ` set (pages_of pl0 st_ABC)"
    by (simp add: pages_ABC ident_def pageA_def pageB_def pageC_def pageF_def)
  show ?thesis
    using insertPage_placement [OF len dist fresh_ABC, of 1 pageF] len dist fresh_ABC new
    by (simp add: pages_ABC stage_F)
qed

lemma transplanted_A: "insertPage pl0 1 pageF st_A = (Inr (), st_AF)"
proof -
  have new: "ident (stage (qpdf pl0) 2 pageF) \<notin> ident ` set [pageA]"
    unfolding stage_F by (simp add: ident_def pageA_def pageF_def)
  have "insertPage pl0 1 pageF (mk pl0 empty_state [pageA] 2 []) =
      (Inr (), mk pl0 empty_state (take (unat (1 :: 64 word)) [pageA] @
          [stage (qpdf pl0) 2 pageF] @ drop (unat (1 :: 64 word)) [pageA])
        (if getOwningQPDF pageF = Some (qpdf pl0) then Suc 2 else 2)
        (if getOwningQPDF pageF = Some (qpdf pl0) then [] else getOwningQPDF pageF # []))"
    by (rule insertPage_mk [OF _ _ _ new]) simp_all
  then show ?thesis
    by (simp add: st_A_def stage_F) (simp add: st_AF_def pageF_def pl0_def)
qed

text \<open>
  The page F of another document is inserted into the collection [A] and then inserted
  once more, at the index equal to the count: the second call fails with the engine's
  error and the collection still has two pages.
\<close>

theorem insertPage_transplanted_twice:
  "insertPage pl0 1 pageF st_A = (Inr (), st_AF)
   \<and> unat (2 :: 64 word) = length (pages_of pl0 st_AF)
   \<and> fst (insertPage pl0 2 pageF st_AF) = Inl duplicate_page
   \<and> pages_of pl0 (snd (insertPage pl0 2 pageF st_AF)) = [pageA, pageF]
   \<and> length (pages_of pl0 (snd (insertPage pl0 2 pageF st_AF))) = length (pages_of pl0 st_AF)"
proof -
  have b: "insertPage pl0 2 pageF st_AF =
      (Inl duplicate_page, mk pl0 empty_state [pageA, pageF]
        (if getOwningQPDF pageF = Some (qpdf pl0) then Suc 2 else 2)
        (if getOwningQPDF pageF = Some (qpdf pl0) then [Some 1]
         else getOwningQPDF pageF # [Some 1]))"
    unfolding st_AF_def
    by (rule insertPage_refused_mk) (simp_all add: stage_F)
  show ?thesis
    by (simp add: transplanted_A b pages_AF)
qed


subsection \<open>Replacing one page\<close>

lemma unat_plus_one: "unat (i :: 64 word) < 2 ^ 63 \<Longrightarrow> unat (i + 1) = unat i + 1"
proof -
  assume "unat i < 2 ^ 63"
  then have "unat i + unat (1 :: 64 word) < 2 ^ LENGTH(64)" by simp
  then have "unat (i + 1) = unat i + unat (1 :: 64 word)" by (simp only: unat_add_lem)
  then show ?thesis by simp
qed

lemma setPage_valid:
  assumes len: "length (pages_of this st) + 1 < 2 ^ 63"
    and idx: "unat index < length (pages_of this st)"
    and dist: "distinct (map ident (pages_of this st))"
    and page: "isPageObject h"
    and new: "ident (stage (qpdf this) (next_obj (heap st (qpdf this))) h) \<notin>
        ident ` set (pages_of this st)"
  shows "setPage this index (PyObjectHandle h) st =
    (case insertPage this index h st of
       (r, st1) \<Rightarrow> deletePage this (index + 1) st1)"
    and "fst (insertPage this index h st) = Inr ()"
proof -
  have len': "length (pages_of this st) < 2 ^ 63" using len by simp
  have idx': "unat index \<le> length (pages_of this st)" using idx by simp
  note ins = insertPage_any [OF len' idx' dist new]
  show "fst (insertPage this index h st) = Inr ()" by (simp add: ins)
  have "unat index \<noteq> length (pages_of this st) + 1" using idx by simp
  then have ne: "index \<noteq> of_nat (length (pages_of this st) + 1)"
    using word_eq_len [OF len, of index] by blast
  show "setPage this index (PyObjectHandle h) st =
    (case insertPage this index h st of
       (r, st1) \<Rightarrow> deletePage this (index + 1) st1)"
    using page ne idx by (simp add: setPage_def insertPage_obj_def ins count_mk)
qed

text \<open>
  C1, at the append position. \<open>setPage\<close> compares \<open>index\<close> with \<open>count()\<close> after the
  insertion, when the count has already grown by one. With \<open>index\<close> equal to the count at
  the time of the call and a page that the engine accepts (the handle placed, which is
  the copy for a page of the bound document, is not yet in the collection), the page is
  appended, the comparison finds \<open>index\<close> different from the new count, and
  \<open>deletePage(index + 1)\<close> raises the out-of-range error; the appended page stays. A
  page that the engine refuses gives the engine's error and leaves the pages as they
  were.
\<close>

theorem setPage_append_position:
  assumes len: "length (pages_of this st) + 1 < 2 ^ 63"
    and idx: "unat index = length (pages_of this st)"
    and dist: "distinct (map ident (pages_of this st))"
    and page: "isPageObject h"
  shows "(ident (stage (qpdf this) (next_obj (heap st (qpdf this))) h) \<notin>
        ident ` set (pages_of this st) \<longrightarrow>
      fst (setPage this index (PyObjectHandle h) st) =
        Inl (index_error ''Accessing nonexistent PDF page number'')
      \<and> pages_of this (snd (setPage this index (PyObjectHandle h) st)) =
        pages_of this st @ [stage (qpdf this) (next_obj (heap st (qpdf this))) h])
    \<and> (ident (stage (qpdf this) (next_obj (heap st (qpdf this))) h) \<in>
        ident ` set (pages_of this st) \<longrightarrow>
      fst (setPage this index (PyObjectHandle h) st) = Inl duplicate_page
      \<and> pages_of this (snd (setPage this index (PyObjectHandle h) st)) = pages_of this st)"
proof (intro conjI impI)
  assume new: "ident (stage (qpdf this) (next_obj (heap st (qpdf this))) h) \<notin>
        ident ` set (pages_of this st)"
  define st1 where "st1 = snd (insertPage this index h st)"
  have len': "length (pages_of this st) < 2 ^ 63" using len by simp
  have idx': "unat index \<le> length (pages_of this st)" using idx by simp
  note ins = insertPage_any [OF len' idx' dist new]
  have ins': "insertPage this index h st = (Inr (), st1)" by (simp add: st1_def ins)
  have ps1: "pages_of this st1 =
      pages_of this st @ [stage (qpdf this) (next_obj (heap st (qpdf this))) h]"
    using idx by (simp add: st1_def ins)
  have "unat index \<noteq> length (pages_of this st1)" using idx by (simp add: ps1)
  moreover have l1: "length (pages_of this st1) < 2 ^ 63" using len by (simp add: ps1)
  ultimately have ne: "index \<noteq> count this st1"
    by (simp add: count_def pages_of_def [symmetric] word_eq_len)
  have u: "unat (index + 1) = length (pages_of this st) + 1"
    using unat_plus_one [of index] idx len by simp
  have "getPage this (index + 1) st1 =
      Inl (index_error ''Accessing nonexistent PDF page number'')"
    by (rule getPage_beyond)
      (use l1 u len in \<open>simp_all add: pages_of_def [symmetric] ps1\<close>)
  then have del: "deletePage this (index + 1) st1 =
      (Inl (index_error ''Accessing nonexistent PDF page number''), st1)"
    by (simp add: deletePage_def)
  have eq: "setPage this index (PyObjectHandle h) st =
      (Inl (index_error ''Accessing nonexistent PDF page number''), st1)"
    using page ne by (simp add: setPage_def insertPage_obj_def ins' del)
  show "fst (setPage this index (PyObjectHandle h) st) =
        Inl (index_error ''Accessing nonexistent PDF page number'')"
    by (simp add: eq)
  show "pages_of this (snd (setPage this index (PyObjectHandle h) st)) =
        pages_of this st @ [stage (qpdf this) (next_obj (heap st (qpdf this))) h]"
    by (simp add: eq ps1)
next
  assume dup: "ident (stage (qpdf this) (next_obj (heap st (qpdf this))) h) \<in>
        ident ` set (pages_of this st)"
  have len': "length (pages_of this st) < 2 ^ 63" using len by simp
  have idx': "unat index \<le> length (pages_of this st)" using idx by simp
  note ins = insertPage_refused_any [OF len' idx' dup]
  show "fst (setPage this index (PyObjectHandle h) st) = Inl duplicate_page"
    using page by (simp add: setPage_def insertPage_obj_def ins)
  show "pages_of this (snd (setPage this index (PyObjectHandle h) st)) = pages_of this st"
    using page by (simp add: setPage_def insertPage_obj_def ins)
qed

theorem setPage_append_position_witness:
  "length (pages_of pl0 st_ABC) + 1 < 2 ^ 63 \<and> unat (3 :: 64 word) = length (pages_of pl0 st_ABC)
   \<and> distinct (map ident (pages_of pl0 st_ABC)) \<and> isPageObject pageF
   \<and> fst (setPage pl0 3 (PyObjectHandle pageF) st_ABC) =
       Inl (index_error ''Accessing nonexistent PDF page number'')
   \<and> pages_of pl0 (snd (setPage pl0 3 (PyObjectHandle pageF) st_ABC)) =
       [pageA, pageB, pageC, pageF]"
proof -
  have len: "length (pages_of pl0 st_ABC) + 1 < 2 ^ 63" by (simp add: pages_ABC)
  have idx: "unat (3 :: 64 word) = length (pages_of pl0 st_ABC)" by (simp add: pages_ABC)
  have dist: "distinct (map ident (pages_of pl0 st_ABC))"
    by (simp only: pages_ABC distinct_ABC)
  have page: "isPageObject pageF" by (simp add: pageF_def)
  have new: "ident pageF \<notin> ident ` set (pages_of pl0 st_ABC)"
    by (simp add: pages_ABC ident_def pageA_def pageB_def pageC_def pageF_def)
  show ?thesis
    using setPage_append_position [OF len idx dist page] len idx dist page new
    by (simp add: pages_ABC stage_F)
qed


subsection \<open>Insertion beyond the end\<close>

lemma insertPage_beyond_mk:
  assumes len: "length ps < 2 ^ 63" and lo: "length ps < unat index" and hi: "unat index < 2 ^ 63"
  shows "insertPage this index h (mk this st ps k rs) =
    (Inl (index_error ''Accessing nonexistent PDF page number''),
     mk this st ps (if getOwningQPDF h = Some (qpdf this) then Suc k else k)
       (if getOwningQPDF h = Some (qpdf this) then rs else getOwningQPDF h # rs))"
proof -
  define st1 where "st1 = mk this st ps (if getOwningQPDF h = Some (qpdf this) then Suc k else k)
       (if getOwningQPDF h = Some (qpdf this) then rs else getOwningQPDF h # rs)"
  have pg: "getAllPages (heap st1 (qpdf this)) = ps" by (simp add: st1_def)
  have "unat index \<noteq> length ps" using lo by simp
  then have ne: "index \<noteq> count this st1"
    using len by (simp add: st1_def count_mk word_eq_len)
  have gp: "getPage this index st1 = Inl (index_error ''Accessing nonexistent PDF page number'')"
    by (rule getPage_beyond) (use len lo hi in \<open>simp_all add: pg\<close>)
  show ?thesis
    unfolding insertPage_def Let_def bookkeeping_mk st1_def [symmetric]
    using ne by (simp add: gp)
qed

text \<open>
  For an index above the page count and below \<open>2^63\<close>, \<open>insertPage\<close> raises the
  out-of-range error and leaves the pages as they are, after the copy has been made or
  the reference on the owner has been taken.
\<close>

lemma insertPage_beyond_count:
  assumes len: "length (pages_of this st) < 2 ^ 63"
    and lo: "length (pages_of this st) < unat index" and hi: "unat index < 2 ^ 63"
  shows "fst (insertPage this index h st) =
        Inl (index_error ''Accessing nonexistent PDF page number'')
    \<and> pages_of this (snd (insertPage this index h st)) = pages_of this st
    \<and> next_obj (heap (snd (insertPage this index h st)) (qpdf this)) =
        (if getOwningQPDF h = Some (qpdf this) then Suc (next_obj (heap st (qpdf this)))
         else next_obj (heap st (qpdf this)))
    \<and> inc_refs (snd (insertPage this index h st)) =
        (if getOwningQPDF h = Some (qpdf this) then inc_refs st
         else getOwningQPDF h # inc_refs st)"
  using insertPage_beyond_mk [OF len lo hi, of this h st "next_obj (heap st (qpdf this))" "inc_refs st"]
  by (simp add: mk_id)

lemma findPage_ABC: "findPage [pageA, pageB, pageC] pageC = Some 2"
  by (simp add: same_object_def pageA_def pageB_def pageC_def)

lemma findPage_ABC_F: "findPage [pageA, pageB, pageC] pageF = None"
  by (simp add: same_object_def pageA_def pageB_def pageC_def pageF_def)

text \<open>
  C10, at the index \<open>2^64 - 1\<close>. \<open>insertPage\<close> hands its \<open>size_t\<close> index to \<open>getPage\<close>,
  which reads it as a \<open>ssize_t\<close>: the index \<open>2^64 - 1\<close> is read as \<open>-1\<close> and resolves
  to the last page. On the document with the pages A, B and C the call raises no error
  and places the page before C.
\<close>

theorem insertPage_huge_index:
  "length (pages_of pl0 st_ABC) < unat (18446744073709551615 :: 64 word)
   \<and> fst (insertPage pl0 18446744073709551615 pageF st_ABC) = Inr ()
   \<and> pages_of pl0 (snd (insertPage pl0 18446744073709551615 pageF st_ABC)) =
       [pageA, pageB, pageF, pageC]"
proof -
  define st1 where "st1 = mk pl0 empty_state [pageA, pageB, pageC] 4 [Some 1]"
  have own: "getOwningQPDF pageF \<noteq> Some (qpdf pl0)" by (simp add: pageF_def pl0_def)
  have bk: "(if getOwningQPDF pageF = Some (getQPDF pl0)
    then (case makeIndirectObject (qpdf pl0) pageF (heap st_ABC (qpdf pl0)) of
            (copy, q) \<Rightarrow> (copy, update_qpdf pl0 q st_ABC))
    else (pageF, st_ABC\<lparr>inc_refs := getOwningQPDF pageF # inc_refs st_ABC\<rparr>))
   = (pageF, st1)"
    unfolding st_ABC_def bookkeeping_mk st1_def using own
    by (simp add: stage_def pageF_def)
  have pg: "getAllPages (heap st1 (qpdf pl0)) = [pageA, pageB, pageC]" by (simp add: st1_def)
  have ne: "(18446744073709551615 :: 64 word) \<noteq> count pl0 st1"
    by (simp add: st1_def count_mk)
  have len: "length (getAllPages (heap st1 (qpdf pl0))) < 2 ^ 63" by (simp add: pg)
  have s: "sint (18446744073709551615 :: 64 word) = - 1" by simp
  have gp: "getPage pl0 18446744073709551615 st1 = Inr pageC"
    unfolding getPage_int [OF len] s pg by (simp add: Let_def)
  have ap: "addPageAt pageF True pageC (heap st1 (qpdf pl0)) =
      Inr \<lparr>getAllPages = [pageA, pageB, pageF, pageC], next_obj = 4\<rparr>"
    by (simp add: addPageAt_def st1_def heap_mk findPage_ABC findPage_ABC_F Let_def
      del: findPage.simps)
  have "insertPage pl0 18446744073709551615 pageF st_ABC =
      (Inr (), mk pl0 empty_state [pageA, pageB, pageF, pageC] 4 [Some 1])"
    unfolding insertPage_def Let_def bk
    using ne by (simp add: gp ap) (simp add: st1_def upd_mk mk_mk)
  then show ?thesis by (simp add: pages_ABC)
qed



subsection \<open>Copy on reinsertion\<close>

text \<open>
  C3. Let the pages of the bound document be pairwise different objects with object
  numbers below the next free one, and let \<open>page\<close> be a handle of an object of that
  document. \<open>insertPage\<close> makes a fresh indirect object (numbered with the next free
  number, so it is neither \<open>page\<close> nor a page of the collection) and places this copy,
  not \<open>page\<close>. Inserting \<open>page\<close> a second time places another copy; after both
  insertions no two positions of the collection hold the same object.
\<close>

theorem insertPage_copy_on_reinsert:
  assumes len: "length (pages_of this st) + 1 < 2 ^ 63"
    and dist: "distinct (map ident (pages_of this st))"
    and fresh: "fresh_ids this st"
    and own: "getOwningQPDF page = Some (qpdf this)"
    and old: "getObjGen page < next_obj (heap st (qpdf this))"
    and i1: "unat i1 \<le> length (pages_of this st)"
    and i2: "unat i2 \<le> length (pages_of this st) + 1"
  shows "fst (insertPage this i1 page st) = Inr ()
    \<and> pages_of this (snd (insertPage this i1 page st)) =
        take (unat i1) (pages_of this st) @
        [page\<lparr>getOwningQPDF := Some (qpdf this), getObjGen := next_obj (heap st (qpdf this))\<rparr>] @
        drop (unat i1) (pages_of this st)
    \<and> \<not> same_object
          (page\<lparr>getOwningQPDF := Some (qpdf this), getObjGen := next_obj (heap st (qpdf this))\<rparr>)
          page
    \<and> ident (page\<lparr>getOwningQPDF := Some (qpdf this),
                getObjGen := next_obj (heap st (qpdf this))\<rparr>) \<notin> ident ` set (pages_of this st)
    \<and> fst (insertPage this i2 page (snd (insertPage this i1 page st))) = Inr ()
    \<and> distinct (map ident
          (pages_of this (snd (insertPage this i2 page (snd (insertPage this i1 page st))))))
    \<and> length (pages_of this (snd (insertPage this i2 page (snd (insertPage this i1 page st))))) =
        length (pages_of this st) + 2"
proof -
  define a where "a = qpdf this"
  define k where "k = next_obj (heap st (qpdf this))"
  define ps where "ps = pages_of this st"
  define ps1 where "ps1 = take (unat i1) ps @ [stage a k page] @ drop (unat i1) ps"
  define st1 where "st1 = mk this st ps1 (Suc k) (inc_refs st)"
  define ps2 where "ps2 = take (unat i2) ps1 @ [stage a (Suc k) page] @ drop (unat i2) ps1"
  have fr: "\<forall>h \<in> set ps. getOwningQPDF h = Some a \<longrightarrow> getObjGen h < k"
    using fresh by (simp add: fresh_ids_def ps_def a_def k_def)
  have len0: "length (pages_of this st) < 2 ^ 63" using len by simp
  have copy: "stage a k page = page\<lparr>getOwningQPDF := Some a, getObjGen := k\<rparr>"
    using own by (simp add: stage_def a_def)
  have nin1: "ident (stage a k page) \<notin> ident ` set ps"
    using fr own by (intro stage_fresh) (simp_all add: a_def)
  have new1: "ident (stage (qpdf this) (next_obj (heap st (qpdf this))) page) \<notin>
      ident ` set (pages_of this st)"
    using nin1 unfolding a_def k_def ps_def .
  have ins1: "insertPage this i1 page st = (Inr (), st1)"
    using insertPage_any [OF len0 i1 dist new1] own
    by (simp add: st1_def ps1_def ps_def a_def k_def)
  have d1: "distinct (map ident ps1)"
    unfolding ps1_def using dist nin1 by (intro distinct_insert) (simp_all add: ps_def)
  have p1: "pages_of this st1 = ps1" by (simp add: st1_def)
  have k1: "next_obj (heap st1 (qpdf this)) = Suc k" by (simp add: st1_def)
  have l1: "length ps1 = length ps + 1" using i1 by (simp add: ps1_def ps_def)
  have fr1: "\<forall>h \<in> set ps1. getOwningQPDF h = Some a \<longrightarrow> getObjGen h < Suc k"
  proof
    fix h assume "h \<in> set ps1"
    then have "h \<in> set ps \<or> h = stage a k page"
      by (auto simp: ps1_def dest: in_set_takeD in_set_dropD)
    then show "getOwningQPDF h = Some a \<longrightarrow> getObjGen h < Suc k"
      using fr by (auto simp: copy less_Suc_eq)
  qed
  have len1: "length (pages_of this st1) < 2 ^ 63" using len by (simp add: p1 l1 ps_def)
  have i2': "unat i2 \<le> length (pages_of this st1)" using i2 by (simp add: p1 l1 ps_def)
  have d1': "distinct (map ident (pages_of this st1))" using d1 by (simp add: p1)
  have nin2: "ident (stage a (Suc k) page) \<notin> ident ` set ps1"
    using fr1 own by (intro stage_fresh) (simp_all add: a_def)
  have new2: "ident (stage (qpdf this) (next_obj (heap st1 (qpdf this))) page) \<notin>
      ident ` set (pages_of this st1)"
    using nin2 unfolding a_def k1 p1 .
  have ins2: "insertPage this i2 page st1 = (Inr (), mk this st1 ps2 (Suc (Suc k)) (inc_refs st))"
    using insertPage_any [OF len1 i2' d1' new2] own
    by (simp add: p1 k1 ps2_def a_def) (simp add: st1_def)
  have d2: "distinct (map ident ps2)"
    unfolding ps2_def using d1 nin2 by (intro distinct_insert)
  have l2: "length ps2 = length ps + 2" using i2 l1 by (simp add: ps2_def ps_def)
  have ne: "\<not> same_object (stage a k page) page"
    unfolding copy using old by (simp add: same_object_def k_def)
  have copy': "stage (qpdf this) (next_obj (heap st (qpdf this))) page =
      page\<lparr>getOwningQPDF := Some (qpdf this), getObjGen := next_obj (heap st (qpdf this))\<rparr>"
    using own by (simp add: stage_def)
  have c1: "fst (insertPage this i1 page st) = Inr ()" by (simp add: ins1)
  have c2: "pages_of this (snd (insertPage this i1 page st)) =
        take (unat i1) (pages_of this st) @
        [page\<lparr>getOwningQPDF := Some (qpdf this), getObjGen := next_obj (heap st (qpdf this))\<rparr>] @
        drop (unat i1) (pages_of this st)"
    by (simp add: ins1 p1) (simp add: ps1_def ps_def a_def k_def copy')
  have c3: "\<not> same_object
          (page\<lparr>getOwningQPDF := Some (qpdf this), getObjGen := next_obj (heap st (qpdf this))\<rparr>)
          page"
    using ne by (simp add: a_def k_def copy')
  have c4: "ident (page\<lparr>getOwningQPDF := Some (qpdf this),
                getObjGen := next_obj (heap st (qpdf this))\<rparr>) \<notin> ident ` set (pages_of this st)"
    using nin1 by (simp add: a_def k_def copy' ps_def)
  have c5: "fst (insertPage this i2 page (snd (insertPage this i1 page st))) = Inr ()"
    by (simp add: ins1 ins2)
  have c6: "distinct (map ident
          (pages_of this (snd (insertPage this i2 page (snd (insertPage this i1 page st))))))"
    using d2 by (simp add: ins1 ins2)
  have c7: "length (pages_of this (snd (insertPage this i2 page (snd (insertPage this i1 page st))))) =
        length (pages_of this st) + 2"
    using l2 by (simp add: ins1 ins2 ps_def)
  show ?thesis using c1 c2 c3 c4 c5 c6 c7 by blast
qed

theorem insertPage_copy_on_reinsert_witness:
  "fst (insertPage pl0 0 pageA st_ABC) = Inr ()
   \<and> pages_of pl0 (snd (insertPage pl0 0 pageA st_ABC)) =
        [pageA\<lparr>getObjGen := 4\<rparr>, pageA, pageB, pageC]
   \<and> fst (insertPage pl0 0 pageA (snd (insertPage pl0 0 pageA st_ABC))) = Inr ()
   \<and> distinct (map ident
        (pages_of pl0 (snd (insertPage pl0 0 pageA (snd (insertPage pl0 0 pageA st_ABC))))))"
proof -
  have len: "length (pages_of pl0 st_ABC) + 1 < 2 ^ 63" by (simp add: pages_ABC)
  have dist: "distinct (map ident (pages_of pl0 st_ABC))"
    by (simp only: pages_ABC distinct_ABC)
  have own: "getOwningQPDF pageA = Some (qpdf pl0)" by (simp add: pageA_def pl0_def)
  have old: "getObjGen pageA < next_obj (heap st_ABC (qpdf pl0))"
    by (simp add: st_ABC_def pageA_def)
  have i1: "unat (0 :: 64 word) \<le> length (pages_of pl0 st_ABC)" by simp
  have i2: "unat (0 :: 64 word) \<le> length (pages_of pl0 st_ABC) + 1" by simp
  have k: "next_obj (heap st_ABC (qpdf pl0)) = 4" by (simp add: st_ABC_def)
  have c: "pageA\<lparr>getOwningQPDF := Some (qpdf pl0), getObjGen := 4\<rparr> = pageA\<lparr>getObjGen := 4\<rparr>"
    by (simp add: pageA_def pl0_def)
  show ?thesis
    using insertPage_copy_on_reinsert [OF len dist fresh_ABC own old i1 i2]
    by (simp add: pages_ABC k c)
qed


subsection \<open>Validation of the source of a slice assignment\<close>

lemma assert_not_page:
  assumes "x = PyOther \<or> (\<exists>h. x = PyObjectHandle h \<and> \<not> isPageObject h)"
  shows "assert_pyobject_is_page x =
        Inl (type_error ''only pikepdf pages can be assigned to a page list'')
    \<or> assert_pyobject_is_page x = Inl (type_error ''only pages can be assigned to a page list'')"
  using assms by (auto simp: assert_pyobject_is_page_def)

lemma assert_cases:
  "assert_pyobject_is_page x = Inr ()
   \<or> assert_pyobject_is_page x =
        Inl (type_error ''only pikepdf pages can be assigned to a page list'')
   \<or> assert_pyobject_is_page x = Inl (type_error ''only pages can be assigned to a page list'')"
  by (cases x) (simp_all add: assert_pyobject_is_page_def)

lemma assert_page: "isPageObject h \<Longrightarrow> assert_pyobject_is_page (PyObjectHandle h) = Inr ()"
  by (simp add: assert_pyobject_is_page_def)

lemma unpack_fail:
  assumes "x \<in> set it"
    and "x = PyOther \<or> (\<exists>h. x = PyObjectHandle h \<and> \<not> isPageObject h)"
  shows "unpack_iterable it acc =
        Inl (type_error ''only pikepdf pages can be assigned to a page list'')
     \<or> unpack_iterable it acc = Inl (type_error ''only pages can be assigned to a page list'')"
  using assms(1)
proof (induction it arbitrary: acc)
  case Nil
  then show ?case by simp
next
  case (Cons y it)
  show ?case
  proof (cases "assert_pyobject_is_page y = Inr ()")
    case True
    then have "y \<noteq> x" using assert_not_page [OF assms(2)] by auto
    then have "x \<in> set it" using Cons.prems by auto
    then show ?thesis using Cons.IH [of "acc @ [y]"] True by simp
  next
    case False
    then show ?thesis using assert_cases [of y] by auto
  qed
qed

lemma unpack_ok:
  "\<forall>x \<in> set it. assert_pyobject_is_page x = Inr () \<Longrightarrow> unpack_iterable it acc = Inr (acc @ it)"
  by (induction it arbitrary: acc) simp_all

lemma unpack_handles:
  assumes "\<forall>h \<in> set hs. isPageObject h"
  shows "unpack_iterable (map PyObjectHandle hs) [] = Inr (map PyObjectHandle hs)"
  using unpack_ok [of "map PyObjectHandle hs" "[]"] assms by (simp add: assert_page)

lemma of_nat_neq_64:
  assumes "n < 2 ^ 64" and "n \<noteq> unat (w :: 64 word)"
  shows "of_nat n \<noteq> w"
proof
  assume "of_nat n = w"
  then have "unat (of_nat n :: 64 word) = unat w" by simp
  then show False using assms by (simp add: unat_of_nat64)
qed

text \<open>
  C5. \<open>setPagesFromIterable\<close> checks every item of the source before it changes anything.
  When some item of the source is not a page (it is no object handle at all, or a handle
  of an object that is not a page), the call fails and the state is the one before the
  call; the error is one of the two type errors of the check, once the slice itself has
  been resolved. For an extended slice (step different from 1), when every item is a
  handle of a page object and the number of items differs from the resolved slice
  length, the call fails with the length-mismatch error and the state is the one before
  the call.
\<close>

theorem setPagesFromIterable_validates_first:
  "(x \<in> set other \<and> (x = PyOther \<or> (\<exists>h. x = PyObjectHandle h \<and> \<not> isPageObject h)) \<longrightarrow>
      snd (setPagesFromIterable this sl other st) = st
      \<and> (\<exists>e. fst (setPagesFromIterable this sl other st) = Inl e)
      \<and> (compute sl (count this st) \<noteq> None \<longrightarrow>
           fst (setPagesFromIterable this sl other st) =
             Inl (type_error ''only pikepdf pages can be assigned to a page list'')
           \<or> fst (setPagesFromIterable this sl other st) =
             Inl (type_error ''only pages can be assigned to a page list'')))
   \<and> (compute sl (count this st) = Some (start, stop, step, slicelength) \<and> step \<noteq> 1
       \<and> (\<forall>h \<in> set hs. isPageObject h)
       \<and> length hs < 2 ^ 64 \<and> length hs \<noteq> unat slicelength \<longrightarrow>
      setPagesFromIterable this sl (map PyObjectHandle hs) st =
        (Inl (value_error
           (''attempt to assign sequence of length '' @ to_string (length hs) @
            '' to extended slice of size '' @ to_string (unat slicelength))), st))"
proof (intro conjI impI)
  assume bad: "x \<in> set other \<and> (x = PyOther \<or> (\<exists>h. x = PyObjectHandle h \<and> \<not> isPageObject h))"
  then have "unpack_iterable other [] =
        Inl (type_error ''only pikepdf pages can be assigned to a page list'')
     \<or> unpack_iterable other [] = Inl (type_error ''only pages can be assigned to a page list'')"
    by (intro unpack_fail [of x]) simp_all
  then obtain msg where u: "unpack_iterable other [] = Inl (type_error msg)"
    and m: "msg = ''only pikepdf pages can be assigned to a page list''
      \<or> msg = ''only pages can be assigned to a page list''"
    by blast
  show "snd (setPagesFromIterable this sl other st) = st"
    by (simp add: setPagesFromIterable_def u split: option.split)
  show "\<exists>e. fst (setPagesFromIterable this sl other st) = Inl e"
    by (simp add: setPagesFromIterable_def u split: option.split)
  show "fst (setPagesFromIterable this sl other st) =
             Inl (type_error ''only pikepdf pages can be assigned to a page list'')
           \<or> fst (setPagesFromIterable this sl other st) =
             Inl (type_error ''only pages can be assigned to a page list'')"
    if "compute sl (count this st) \<noteq> None"
  proof -
    have "fst (setPagesFromIterable this sl other st) = Inl (type_error msg)"
      using that by (auto simp: setPagesFromIterable_def u)
    then show ?thesis using m by blast
  qed
next
  assume a: "compute sl (count this st) = Some (start, stop, step, slicelength) \<and> step \<noteq> 1
       \<and> (\<forall>h \<in> set hs. isPageObject h)
       \<and> length hs < 2 ^ 64 \<and> length hs \<noteq> unat slicelength"
  then have u: "unpack_iterable (map PyObjectHandle hs) [] = Inr (map PyObjectHandle hs)"
    by (intro unpack_handles) simp
  have ne: "of_nat (length hs) \<noteq> slicelength"
    using a by (intro of_nat_neq_64) simp_all
  show "setPagesFromIterable this sl (map PyObjectHandle hs) st =
        (Inl (value_error
           (''attempt to assign sequence of length '' @ to_string (length hs) @
            '' to extended slice of size '' @ to_string (unat slicelength))), st)"
    using a ne by (simp add: setPagesFromIterable_def u)
qed

lemma count_ABC: "count pl0 st_ABC = 3"
  by (simp add: count_def pages_ABC [unfolded pages_of_def])

lemma compute_step2:
  "compute \<lparr>slice_start = Some 0, slice_stop = None, slice_step = Some 2\<rparr> 3 = Some (0, 3, 2, 2)"
  by (simp add: compute_def PySlice_Unpack_def PySlice_AdjustIndices_def adjust_bound_def
      PyEval_SliceIndex_def PY_SSIZE_T_MAX_def PY_SSIZE_T_MIN_def Let_def)

theorem setPagesFromIterable_validates_first_witness:
  "PyObjectHandle objN \<in> set [PyObjectHandle pageF, PyObjectHandle objN]
   \<and> (\<exists>h. PyObjectHandle objN = PyObjectHandle h \<and> isPageObject h = False)
   \<and> snd (setPagesFromIterable pl0 \<lparr>slice_start = Some 0, slice_stop = None, slice_step = Some 2\<rparr>
          [PyObjectHandle pageF, PyObjectHandle objN] st_ABC) = st_ABC
   \<and> fst (setPagesFromIterable pl0
          \<lparr>slice_start = Some 0, slice_stop = None, slice_step = Some 2\<rparr>
          [PyObjectHandle pageF, PyObjectHandle objN] st_ABC) =
        Inl (type_error ''only pages can be assigned to a page list'')
   \<and> setPagesFromIterable pl0 \<lparr>slice_start = Some 0, slice_stop = None, slice_step = Some 2\<rparr>
          [PyObjectHandle pageF] st_ABC =
        (Inl (value_error ''attempt to assign sequence of length 1 to extended slice of size 2''),
         st_ABC)"
proof -
  have bad: "PyObjectHandle objN \<in> set [PyObjectHandle pageF, PyObjectHandle objN] \<and>
      (PyObjectHandle objN = PyOther \<or>
       (\<exists>h. PyObjectHandle objN = PyObjectHandle h \<and> \<not> isPageObject h))"
    by (simp add: objN_def)
  have c: "compute \<lparr>slice_start = Some 0, slice_stop = None, slice_step = Some 2\<rparr>
      (count pl0 st_ABC) = Some (0, 3, 2, 2)"
    by (simp only: count_ABC compute_step2)
  have ok: "\<forall>h \<in> set [pageF]. isPageObject h"
    by (simp add: pageF_def)
  have t1: "to_string 1 = ''1''" by code_simp
  have t2: "to_string 2 = ''2''" by code_simp
  have t1': "to_string (Suc 0) = ''1''" using t1 by simp
  have u: "unpack_iterable [PyObjectHandle pageF, PyObjectHandle objN] [] =
      Inl (type_error ''only pages can be assigned to a page list'')"
    by (simp add: assert_pyobject_is_page_def pageF_def objN_def)
  have e: "fst (setPagesFromIterable pl0
          \<lparr>slice_start = Some 0, slice_stop = None, slice_step = Some 2\<rparr>
          [PyObjectHandle pageF, PyObjectHandle objN] st_ABC) =
        Inl (type_error ''only pages can be assigned to a page list'')"
    by (simp add: setPagesFromIterable_def c u del: unpack_iterable.simps)
  have n: "\<exists>h. PyObjectHandle objN = PyObjectHandle h \<and> isPageObject h = False"
    by (simp add: objN_def)
  show ?thesis
    using setPagesFromIterable_validates_first
        [of "PyObjectHandle objN" "[PyObjectHandle pageF, PyObjectHandle objN]" pl0
            "\<lparr>slice_start = Some 0, slice_stop = None, slice_step = Some 2\<rparr>" st_ABC
            0 3 2 2 "[pageF]"]
      bad c ok e n
    by (simp add: t1' t2)
qed


subsection \<open>Loops of insertions and deletions\<close>

lemma for_each_append:
  "for_each (xs @ ys) body st =
     (case for_each xs body st of
        (Inl e, st') \<Rightarrow> (Inl e, st')
      | (Inr u, st') \<Rightarrow> for_each ys body st')"
  by (induction xs arbitrary: st) (auto split: prod.splits sum.splits)

lemma for_each_snoc:
  "for_each [0..<j] body st = (Inr (), st') \<Longrightarrow>
     for_each [0..<Suc j] body st = for_each [j] body st'"
  by (simp add: for_each_append)

lemma for_each_single:
  "body j st = (Inr (), st') \<Longrightarrow> for_each [j] body st = (Inr (), st')"
  by simp

lemma stage_all_append:
  "stage_all a k (xs @ ys) = stage_all a k xs @ stage_all a (k + copies_made a xs) ys"
  by (induction xs arbitrary: k) (simp_all add: copies_made_def)

lemma length_stage_all [simp]: "length (stage_all a k hs) = length hs"
  by (induction hs arbitrary: k) simp_all

lemma copies_made_snoc:
  "copies_made a (xs @ [x]) =
     (if getOwningQPDF x = Some a then Suc (copies_made a xs) else copies_made a xs)"
  by (simp add: copies_made_def)

lemma refs_taken_snoc:
  "refs_taken a (xs @ [x]) =
     (if getOwningQPDF x = Some a then refs_taken a xs else getOwningQPDF x # refs_taken a xs)"
  by (simp add: refs_taken_def)

lemma stage_all_take_subset:
  "set (stage_all a k (take j hs)) \<subseteq> set (stage_all a k hs)"
proof -
  have "stage_all a k hs = stage_all a k (take j hs @ drop j hs)" by simp
  also have "\<dots> = stage_all a k (take j hs) @
      stage_all a (k + copies_made a (take j hs)) (drop j hs)"
    by (rule stage_all_append)
  finally show ?thesis by simp
qed

lemma unat_add_of_nat:
  assumes "unat (w :: 64 word) + j < 2 ^ 63"
  shows "unat (w + of_nat j) = unat w + j"
proof -
  have j: "unat (of_nat j :: 64 word) = j"
    using assms by (intro unat_of_nat64) simp
  have "unat w + unat (of_nat j :: 64 word) < 2 ^ LENGTH(64)"
    using assms by (simp add: j)
  then have "unat (w + of_nat j) = unat w + unat (of_nat j :: 64 word)"
    by (simp only: unat_add_lem)
  then show ?thesis by (simp only: j)
qed

lemma insertPage_between:
  assumes len: "length xs + length ys < 2 ^ 63" and idx: "unat index = length xs"
    and anchor: "ys \<noteq> [] \<longrightarrow> ident (hd ys) \<notin> ident ` set xs"
    and new: "ident (stage (qpdf this) k h) \<notin> ident ` set (xs @ ys)"
  shows "insertPage this index h (mk this st (xs @ ys) k rs) =
    (Inr (), mk this st (xs @ [stage (qpdf this) k h] @ ys)
       (if getOwningQPDF h = Some (qpdf this) then Suc k else k)
       (if getOwningQPDF h = Some (qpdf this) then rs else getOwningQPDF h # rs))"
proof -
  have l: "length (xs @ ys) < 2 ^ 63" using len by simp
  have i: "unat index \<le> length (xs @ ys)" using idx by simp
  have a: "unat index < length (xs @ ys) \<longrightarrow>
      ident ((xs @ ys) ! unat index) \<notin> ident ` set (take (unat index) (xs @ ys))"
    using anchor by (auto simp: idx nth_append hd_conv_nth)
  show ?thesis
    using insertPage_mk [OF l i a new, of st rs] by (simp add: idx)
qed

lemma insertPage_between_refused:
  assumes len: "length xs + length ys < 2 ^ 63" and idx: "unat index = length xs"
    and dup: "ident (stage (qpdf this) k h) \<in> ident ` set (xs @ ys)"
  shows "insertPage this index h (mk this st (xs @ ys) k rs) =
    (Inl duplicate_page, mk this st (xs @ ys)
       (if getOwningQPDF h = Some (qpdf this) then Suc k else k)
       (if getOwningQPDF h = Some (qpdf this) then rs else getOwningQPDF h # rs))"
proof -
  have l: "length (xs @ ys) < 2 ^ 63" using len by simp
  have i: "unat index \<le> length (xs @ ys)" using idx by simp
  show ?thesis by (rule insertPage_refused_mk [OF l i dup])
qed

lemma deletePage_between:
  assumes len: "length xs + length ys < 2 ^ 63" and idx: "unat index = length xs"
    and ne: "ys \<noteq> []" and anchor: "ident (hd ys) \<notin> ident ` set xs"
  shows "deletePage this index (mk this st (xs @ ys) k rs) =
    (Inr (), mk this st (xs @ tl ys) k rs)"
proof -
  have l: "length (xs @ ys) < 2 ^ 63" using len by simp
  have i: "unat index < length (xs @ ys)" using idx ne by simp
  have a: "ident ((xs @ ys) ! unat index) \<notin> ident ` set (take (unat index) (xs @ ys))"
    using anchor ne by (simp add: idx nth_append hd_conv_nth)
  have d: "drop (Suc 0) ys = tl ys"
    by (simp add: drop_Suc)
  show ?thesis
    using deletePage_mk [OF l i a, of this st k rs] by (simp add: idx d)
qed



text \<open>
  The insertion loop of a contiguous slice assignment, run for the first \<open>j\<close> source
  handles: it succeeds when the handles it places are pairwise different objects and none
  of them is in the collection.
\<close>

lemma insert_loop:
  assumes len: "length xs + length ys + length hs < 2 ^ 63"
    and s: "unat start = length xs"
  shows "j \<le> length hs \<Longrightarrow> \<forall>h \<in> set (take j hs). isPageObject h \<Longrightarrow>
    distinct (map ident (xs @ stage_all (qpdf this) k (take j hs) @ ys)) \<Longrightarrow>
    for_each [0..<j]
      (\<lambda>i. insertPage_obj this (start + of_nat i) (map PyObjectHandle hs ! i))
      (mk this st (xs @ ys) k rs) =
    (Inr (), mk this st (xs @ stage_all (qpdf this) k (take j hs) @ ys)
       (k + copies_made (qpdf this) (take j hs))
       (refs_taken (qpdf this) (take j hs) @ rs))"
proof (induction j)
  case 0
  show ?case by (simp add: copies_made_def refs_taken_def)
next
  case (Suc j)
  define a where "a = qpdf this"
  define body where
    "body = (\<lambda>i. insertPage_obj this (start + of_nat i) (map PyObjectHandle hs ! i))"
  define mid where "mid = stage_all a k (take j hs)"
  define kj where "kj = k + copies_made a (take j hs)"
  define rj where "rj = refs_taken a (take j hs) @ rs"
  have j: "j < length hs" using Suc.prems(1) by simp
  have tk: "take (Suc j) hs = take j hs @ [hs ! j]"
    using j by (rule take_Suc_conv_app_nth)
  have st_eq: "stage_all a k (take (Suc j) hs) = mid @ [stage a kj (hs ! j)]"
    by (simp add: tk stage_all_append mid_def kj_def)
  have d: "distinct (map ident (xs @ (mid @ [stage a kj (hs ! j)]) @ ys))"
    using Suc.prems(3) by (simp only: a_def [symmetric] st_eq)
  have dj: "distinct (map ident (xs @ mid @ ys))" using d by auto
  have pj: "\<forall>h \<in> set (take j hs). isPageObject h" using Suc.prems(2) by (simp add: tk)
  have IH: "for_each [0..<j] body (mk this st (xs @ ys) k rs) =
      (Inr (), mk this st ((xs @ mid) @ ys) kj rj)"
    using Suc.IH j pj dj by (simp add: body_def mid_def kj_def rj_def a_def)
  have page: "isPageObject (hs ! j)" using Suc.prems(2) by (simp add: tk)
  have lmid: "length mid = j" using j by (simp add: mid_def)
  have l: "length (xs @ mid) + length ys < 2 ^ 63" using len j by (simp add: lmid)
  have "unat start + j < 2 ^ 63" using len j s by simp
  then have u: "unat (start + of_nat j) = length (xs @ mid)"
    using unat_add_of_nat [of start j] by (simp add: s lmid)
  have an: "ys \<noteq> [] \<longrightarrow> ident (hd ys) \<notin> ident ` set (xs @ mid)"
  proof
    assume "ys \<noteq> []"
    then have "hd ys \<in> set ys" by simp
    then show "ident (hd ys) \<notin> ident ` set (xs @ mid)" using dj by auto
  qed
  have new: "ident (stage (qpdf this) kj (hs ! j)) \<notin> ident ` set ((xs @ mid) @ ys)"
    using d by (auto simp: a_def)
  have ins: "insertPage this (start + of_nat j) (hs ! j) (mk this st ((xs @ mid) @ ys) kj rj) =
      (Inr (), mk this st ((xs @ mid) @ [stage (qpdf this) kj (hs ! j)] @ ys)
         (if getOwningQPDF (hs ! j) = Some (qpdf this) then Suc kj else kj)
         (if getOwningQPDF (hs ! j) = Some (qpdf this) then rj
          else getOwningQPDF (hs ! j) # rj))"
    by (rule insertPage_between [OF l u an new])
  have k_eq: "k + copies_made a (take (Suc j) hs) =
      (if getOwningQPDF (hs ! j) = Some a then Suc kj else kj)"
    by (simp add: tk copies_made_snoc kj_def)
  have r_eq: "refs_taken a (take (Suc j) hs) @ rs =
      (if getOwningQPDF (hs ! j) = Some a then rj else getOwningQPDF (hs ! j) # rj)"
    by (simp add: tk refs_taken_snoc rj_def)
  have bj: "body j (mk this st ((xs @ mid) @ ys) kj rj) =
      (Inr (), mk this st (xs @ stage_all a k (take (Suc j) hs) @ ys)
         (k + copies_made a (take (Suc j) hs)) (refs_taken a (take (Suc j) hs) @ rs))"
    unfolding st_eq k_eq r_eq
    using page j ins by (simp add: body_def insertPage_obj_def a_def)
  have "for_each [0..<Suc j] body (mk this st (xs @ ys) k rs) =
      for_each [j] body (mk this st ((xs @ mid) @ ys) kj rj)"
    using IH by (rule for_each_snoc)
  also have "\<dots> = (Inr (), mk this st (xs @ stage_all a k (take (Suc j) hs) @ ys)
         (k + copies_made a (take (Suc j) hs)) (refs_taken a (take (Suc j) hs) @ rs))"
    using bj by (rule for_each_single)
  finally show ?case by (simp only: body_def a_def)
qed

text \<open>
  The insertion loop stops at the first handle that the engine refuses: the handles
  before it have been placed, the copy of the refused handle has been made or the
  reference on its owner has been taken, the remaining handles are not looked at.
\<close>

lemma for_each_stops:
  assumes "for_each [0..<j] body st = (Inr (), st1)" and "body j st1 = (Inl e, st2)"
    and "j < n"
  shows "for_each [0..<n] body st = (Inl e, st2)"
proof -
  have "[0..<n] = [0..<j] @ j # [Suc j..<n]"
    using assms(3) by (metis less_imp_le_nat upt_add_eq_append upt_conv_Cons le_add_diff_inverse
        zero_le)
  then show ?thesis using assms(1,2) by (simp add: for_each_append)
qed

lemma insert_loop_refused:
  assumes len: "length xs + length ys + length hs < 2 ^ 63"
    and s: "unat start = length xs"
    and j: "j < length hs"
    and pg: "\<forall>h \<in> set (take (Suc j) hs). isPageObject h"
    and dist: "distinct (map ident (xs @ stage_all (qpdf this) k (take j hs) @ ys))"
    and dup: "ident (stage (qpdf this) (k + copies_made (qpdf this) (take j hs)) (hs ! j)) \<in>
        ident ` set (xs @ stage_all (qpdf this) k (take j hs) @ ys)"
  shows "for_each [0..<length hs]
      (\<lambda>i. insertPage_obj this (start + of_nat i) (map PyObjectHandle hs ! i))
      (mk this st (xs @ ys) k rs) =
    (Inl duplicate_page, mk this st (xs @ stage_all (qpdf this) k (take j hs) @ ys)
       (k + copies_made (qpdf this) (take (Suc j) hs))
       (refs_taken (qpdf this) (take (Suc j) hs) @ rs))"
proof -
  define a where "a = qpdf this"
  define body where
    "body = (\<lambda>i. insertPage_obj this (start + of_nat i) (map PyObjectHandle hs ! i))"
  define mid where "mid = stage_all a k (take j hs)"
  define kj where "kj = k + copies_made a (take j hs)"
  define rj where "rj = refs_taken a (take j hs) @ rs"
  have tk: "take (Suc j) hs = take j hs @ [hs ! j]"
    using j by (rule take_Suc_conv_app_nth)
  have pj: "\<forall>h \<in> set (take j hs). isPageObject h" using pg by (simp add: tk)
  have page: "isPageObject (hs ! j)" using pg by (simp add: tk)
  have jl: "j \<le> length hs" using j by simp
  have first: "for_each [0..<j] body (mk this st (xs @ ys) k rs) =
      (Inr (), mk this st ((xs @ mid) @ ys) kj rj)"
    using insert_loop [OF len s jl pj dist, of st rs]
    by (simp add: body_def mid_def kj_def rj_def a_def)
  have lmid: "length mid = j" using j by (simp add: mid_def)
  have l: "length (xs @ mid) + length ys < 2 ^ 63" using len j by (simp add: lmid)
  have "unat start + j < 2 ^ 63" using len j s by simp
  then have u: "unat (start + of_nat j) = length (xs @ mid)"
    using unat_add_of_nat [of start j] by (simp add: s lmid)
  have dup': "ident (stage (qpdf this) kj (hs ! j)) \<in> ident ` set ((xs @ mid) @ ys)"
    using dup by (simp add: kj_def mid_def a_def)
  have ins: "insertPage this (start + of_nat j) (hs ! j) (mk this st ((xs @ mid) @ ys) kj rj) =
      (Inl duplicate_page, mk this st ((xs @ mid) @ ys)
         (if getOwningQPDF (hs ! j) = Some (qpdf this) then Suc kj else kj)
         (if getOwningQPDF (hs ! j) = Some (qpdf this) then rj
          else getOwningQPDF (hs ! j) # rj))"
    by (rule insertPage_between_refused [OF l u dup'])
  have k_eq: "k + copies_made a (take (Suc j) hs) =
      (if getOwningQPDF (hs ! j) = Some a then Suc kj else kj)"
    by (simp add: tk copies_made_snoc kj_def)
  have r_eq: "refs_taken a (take (Suc j) hs) @ rs =
      (if getOwningQPDF (hs ! j) = Some a then rj else getOwningQPDF (hs ! j) # rj)"
    by (simp add: tk refs_taken_snoc rj_def)
  have bj: "body j (mk this st ((xs @ mid) @ ys) kj rj) =
      (Inl duplicate_page, mk this st (xs @ mid @ ys)
         (k + copies_made a (take (Suc j) hs)) (refs_taken a (take (Suc j) hs) @ rs))"
    unfolding k_eq r_eq
    using page j ins by (simp add: body_def insertPage_obj_def a_def)
  have "for_each [0..<length hs] body (mk this st (xs @ ys) k rs) =
      (Inl duplicate_page, mk this st (xs @ mid @ ys)
         (k + copies_made a (take (Suc j) hs)) (refs_taken a (take (Suc j) hs) @ rs))"
    using first bj j by (rule for_each_stops)
  then show ?thesis by (simp only: body_def a_def mid_def)
qed

lemma delete_loop:
  assumes len: "length xs + length ys < 2 ^ 63"
    and d: "unat del_start = length xs"
    and anchor: "\<forall>y \<in> set ys. ident y \<notin> ident ` set xs"
  shows "L \<le> length ys \<Longrightarrow>
    for_each [0..<L] (\<lambda>i. deletePage this del_start) (mk this st (xs @ ys) k rs) =
    (Inr (), mk this st (xs @ drop L ys) k rs)"
proof (induction L)
  case 0
  show ?case by simp
next
  case (Suc L)
  have L: "L < length ys" using Suc.prems by simp
  have IH: "for_each [0..<L] (\<lambda>i. deletePage this del_start) (mk this st (xs @ ys) k rs) =
      (Inr (), mk this st (xs @ drop L ys) k rs)"
    using Suc.IH L by simp
  have ne: "drop L ys \<noteq> []" using L by simp
  have l: "length xs + length (drop L ys) < 2 ^ 63" using len by simp
  have "hd (drop L ys) \<in> set ys" using L by (simp add: hd_drop_conv_nth)
  then have an: "ident (hd (drop L ys)) \<notin> ident ` set xs" using anchor by blast
  have "deletePage this del_start (mk this st (xs @ drop L ys) k rs) =
      (Inr (), mk this st (xs @ tl (drop L ys)) k rs)"
    by (rule deletePage_between [OF l d ne an])
  then have del: "deletePage this del_start (mk this st (xs @ drop L ys) k rs) =
      (Inr (), mk this st (xs @ drop (Suc L) ys) k rs)"
    by (simp add: drop_Suc tl_drop)
  have "for_each [0..<Suc L] (\<lambda>i. deletePage this del_start) (mk this st (xs @ ys) k rs) =
      for_each [L] (\<lambda>i. deletePage this del_start) (mk this st (xs @ drop L ys) k rs)"
    using IH by (rule for_each_snoc)
  also have "\<dots> = (Inr (), mk this st (xs @ drop (Suc L) ys) k rs)"
    using del by (rule for_each_single)
  finally show ?case .
qed

subsection \<open>Resolved slices\<close>

lemma sint_word_of_int:
  assumes "- 9223372036854775808 \<le> c" and "c < 9223372036854775808"
  shows "sint (word_of_int c :: 64 word) = c"
proof -
  have "0 \<le> c + 9223372036854775808" "c + 9223372036854775808 < 18446744073709551616"
    using assms by simp_all
  then have "(c + 9223372036854775808) mod 18446744073709551616 = c + 9223372036854775808"
    by (rule mod_pos_pos_trivial)
  then show ?thesis
    using int_word_sint [where 'a = 64, of c] by simp
qed

lemma sint_of_nat_len: "n < 2 ^ 63 \<Longrightarrow> sint (of_nat n :: 64 word) = int n"
  using sint_word_of_int [of "int n"] int_less_63 [of n] by simp

lemma unat_word_of_int:
  assumes "0 \<le> c" and "c < 18446744073709551616"
  shows "unat (word_of_int c :: 64 word) = nat c"
proof -
  have "c mod 18446744073709551616 = c" using assms by (rule mod_pos_pos_trivial)
  then have "uint (word_of_int c :: 64 word) = c" by (simp add: uint_word_of_int)
  then show ?thesis by (simp only: unat_eq_nat_uint)
qed

lemma unpack_step_range:
  assumes "PySlice_Unpack sl = Some (a, b, c)"
  shows "- 9223372036854775808 < c \<and> c < 9223372036854775808 \<and> c \<noteq> 0"
proof -
  define s0 where "s0 = (case slice_step sl of None \<Rightarrow> 1 | Some v \<Rightarrow> PyEval_SliceIndex v)"
  have r: "- 9223372036854775808 \<le> s0 \<and> s0 \<le> 9223372036854775807"
    by (simp add: s0_def PyEval_SliceIndex_def PY_SSIZE_T_MAX_def PY_SSIZE_T_MIN_def
        split: option.split)
  have "s0 \<noteq> 0 \<and> c = (if s0 < - PY_SSIZE_T_MAX then - PY_SSIZE_T_MAX else s0)"
    using assms unfolding PySlice_Unpack_def Let_def s0_def [symmetric]
    by (simp split: if_splits)
  then show ?thesis using r by (auto simp: PY_SSIZE_T_MAX_def split: if_splits)
qed

lemma adjust_bound_forward:
  assumes "0 \<le> n"
  shows "0 \<le> adjust_bound n 1 b \<and> adjust_bound n 1 b \<le> n"
  using assms by (simp add: adjust_bound_def)

lemma compute_contiguous:
  assumes c: "compute sl (of_nat n) = Some (start, stop, 1, slicelength)"
    and n: "n < 2 ^ 63"
  shows "unat start \<le> n \<and> unat start + unat slicelength \<le> n"
proof -
  obtain a b st where u: "PySlice_Unpack sl = Some (a, b, st)"
    using c by (auto simp: compute_def split: option.splits)
  have len: "sint (of_nat n :: 64 word) = int n" by (rule sint_of_nat_len [OF n])
  have rng: "- 9223372036854775808 < st \<and> st < 9223372036854775808"
    using unpack_step_range [OF u] by simp
  have "(word_of_int st :: 64 word) = 1"
    using c by (simp add: compute_def u len PySlice_AdjustIndices_def Let_def)
  then have "sint (word_of_int st :: 64 word) = 1" by simp
  then have st1: "st = 1" using sint_word_of_int [of st] rng by simp
  define s where "s = adjust_bound (int n) 1 a"
  define e where "e = adjust_bound (int n) 1 b"
  define L where "L = (if (1::int) < 0
      then (if e < s then (s - e - 1) div (- 1) + 1 else 0)
      else (if s < e then (e - s - 1) div 1 + 1 else 0))"
  have sr: "0 \<le> s \<and> s \<le> int n" unfolding s_def by (rule adjust_bound_forward) simp
  have er: "0 \<le> e \<and> e \<le> int n" unfolding e_def by (rule adjust_bound_forward) simp
  have "L = (if s < e then e - s else 0)" by (simp add: L_def)
  then have Lr: "0 \<le> L \<and> s + L \<le> int n" using sr er by simp
  have n64: "int n < 9223372036854775808" by (rule int_less_63 [OF n])
  have "compute sl (of_nat n) =
      Some (word_of_int s, word_of_int e, word_of_int 1, word_of_int L)"
    by (simp only: compute_def u option.case prod.case PySlice_AdjustIndices_def Let_def
        len st1 [symmetric] s_def e_def L_def)
  then have "Some (start, stop, 1 :: 64 word, slicelength) =
      Some (word_of_int s, word_of_int e, word_of_int 1, word_of_int L)"
    by (simp only: c)
  then have "start = word_of_int s" and "slicelength = word_of_int L"
    by (simp_all only: option.inject prod.inject)
  moreover have "unat (word_of_int s :: 64 word) = nat s"
    using sr n64 by (intro unat_word_of_int) simp_all
  moreover have "unat (word_of_int L :: 64 word) = nat L"
    using Lr sr n64 by (intro unat_word_of_int) simp_all
  moreover have "nat s \<le> n" using sr by linarith
  moreover have "nat s + nat L \<le> n" using sr Lr by linarith
  ultimately show ?thesis by (simp only:)
qed




subsection \<open>Contiguous slice assignment\<close>

lemma stage_all_disjoint:
  assumes "\<forall>h \<in> set ps. getOwningQPDF h = Some a \<longrightarrow> getObjGen h < k"
    and "\<forall>h \<in> set hs. getOwningQPDF h \<noteq> Some a \<longrightarrow> ident h \<notin> ident ` set ps"
  shows "ident ` set (stage_all a k hs) \<inter> ident ` set ps = {}"
  using assms
proof (induction hs arbitrary: k)
  case Nil
  show ?case by simp
next
  case (Cons h hs)
  define k' where "k' = (if getOwningQPDF h = Some a then Suc k else k)"
  have "\<forall>h \<in> set ps. getOwningQPDF h = Some a \<longrightarrow> getObjGen h < k'"
    using Cons.prems(1) by (auto simp: k'_def)
  then have rest: "ident ` set (stage_all a k' hs) \<inter> ident ` set ps = {}"
    using Cons.prems(2) by (intro Cons.IH) simp_all
  have first: "ident (stage a k h) \<notin> ident ` set ps"
  proof (cases "getOwningQPDF h = Some a")
    case True
    then show ?thesis using Cons.prems(1) by (intro stage_fresh) simp_all
  next
    case False
    then show ?thesis using Cons.prems(2) by (simp add: stage_def)
  qed
  show ?case using first rest by (simp add: k'_def)
qed

lemma stage_all_own_ge:
  "x \<in> set (stage_all a k hs) \<Longrightarrow> getOwningQPDF x = Some a \<Longrightarrow> k \<le> getObjGen x"
proof (induction hs arbitrary: k)
  case Nil
  then show ?case by simp
next
  case (Cons h hs)
  show ?case
  proof (cases "x = stage a k h")
    case True
    then show ?thesis using Cons.prems(2) by (auto simp: stage_def split: if_splits)
  next
    case False
    then have "x \<in> set (stage_all a (if getOwningQPDF h = Some a then Suc k else k) hs)"
      using Cons.prems(1) by simp
    then have "(if getOwningQPDF h = Some a then Suc k else k) \<le> getObjGen x"
      using Cons.prems(2) by (rule Cons.IH)
    then show ?thesis by (simp split: if_splits)
  qed
qed

lemma stage_all_foreign:
  "x \<in> set (stage_all a k hs) \<Longrightarrow> getOwningQPDF x \<noteq> Some a \<Longrightarrow> x \<in> set hs"
  by (induction hs arbitrary: k) (auto simp: stage_def split: if_splits)

lemma stage_all_keeps_foreign:
  "x \<in> set hs \<Longrightarrow> getOwningQPDF x \<noteq> Some a \<Longrightarrow> x \<in> set (stage_all a k hs)"
  by (induction hs arbitrary: k) (auto simp: stage_def)

lemma ident_owner: "ident x = ident y \<Longrightarrow> getOwningQPDF x = getOwningQPDF y"
  by (simp add: ident_def)

lemma stage_all_distinct:
  assumes "distinct (map ident (filter (\<lambda>h. getOwningQPDF h \<noteq> Some a) hs))"
  shows "distinct (map ident (stage_all a k hs))"
  using assms
proof (induction hs arbitrary: k)
  case Nil
  show ?case by simp
next
  case (Cons h hs)
  define k' where "k' = (if getOwningQPDF h = Some a then Suc k else k)"
  have rest: "distinct (map ident (stage_all a k' hs))"
    using Cons.prems by (intro Cons.IH) (simp split: if_splits)
  have first: "ident (stage a k h) \<notin> ident ` set (stage_all a k' hs)"
  proof
    assume "ident (stage a k h) \<in> ident ` set (stage_all a k' hs)"
    then obtain x where x: "x \<in> set (stage_all a k' hs)" "ident x = ident (stage a k h)"
      by auto
    show False
    proof (cases "getOwningQPDF h = Some a")
      case True
      then have "ident x = (Some a, k)" using x(2) by (simp add: ident_stage_own)
      then have o: "getOwningQPDF x = Some a" and g: "getObjGen x = k"
        by (simp_all add: ident_def)
      have "k' \<le> getObjGen x" using x(1) o by (rule stage_all_own_ge)
      then show False using True g by (simp add: k'_def)
    next
      case False
      then have e: "ident x = ident h" using x(2) by (simp add: stage_def)
      then have "getOwningQPDF x \<noteq> Some a" using False ident_owner by metis
      then have "x \<in> set hs" "getOwningQPDF x \<noteq> Some a"
        using x(1) stage_all_foreign by blast+
      then have "x \<in> set (filter (\<lambda>h. getOwningQPDF h \<noteq> Some a) hs)" by simp
      then have "ident x \<in> ident ` set (filter (\<lambda>h. getOwningQPDF h \<noteq> Some a) hs)"
        by (rule imageI)
      then have "ident h \<in> ident ` set (filter (\<lambda>h. getOwningQPDF h \<noteq> Some a) hs)"
        by (simp only: e)
      then show False using Cons.prems False by simp
    qed
  qed
  show ?case using first rest by (simp add: k'_def)
qed

text \<open>
  The handles placed for sources that satisfy \<open>transplants_new\<close> are pairwise different
  objects and none of them is in the collection.
\<close>

lemma transplants_new_staged:
  assumes "\<forall>h \<in> set ps. getOwningQPDF h = Some a \<longrightarrow> getObjGen h < k"
    and "transplants_new a ps hs"
  shows "ident ` set (stage_all a k hs) \<inter> ident ` set ps = {}"
    and "distinct (map ident (stage_all a k hs))"
proof -
  show "ident ` set (stage_all a k hs) \<inter> ident ` set ps = {}"
    using assms by (intro stage_all_disjoint) (simp_all add: transplants_new_def)
  show "distinct (map ident (stage_all a k hs))"
    using assms(2) by (intro stage_all_distinct) (simp add: transplants_new_def)
qed

lemma contents_stage_all [simp]: "map contents (stage_all a k hs) = map contents hs"
  by (induction hs arbitrary: k) (simp_all add: stage_def)

lemma isPageObject_stage_all [simp]:
  "map isPageObject (stage_all a k hs) = map isPageObject hs"
  by (induction hs arbitrary: k) (simp_all add: stage_def)

lemma contiguous_assign_mk:
  assumes c: "compute sl (of_nat (length ps)) = Some (start, stop, 1, slicelength)"
    and len: "length ps + length hs < 2 ^ 63"
    and pg: "\<forall>h \<in> set hs. isPageObject h"
    and dist: "distinct (map ident ps)"
    and disj: "ident ` set (stage_all (qpdf this) k hs) \<inter> ident ` set ps = {}"
    and dst: "distinct (map ident (stage_all (qpdf this) k hs))"
  shows "unat start + unat slicelength \<le> length ps"
    and "for_each [0..<length hs]
          (\<lambda>i. insertPage_obj this (start + of_nat i) (map PyObjectHandle hs ! i))
          (mk this st ps k rs) =
        (Inr (), mk this st
           (take (unat start) ps @ stage_all (qpdf this) k hs @ drop (unat start) ps)
           (k + copies_made (qpdf this) hs) (refs_taken (qpdf this) hs @ rs))"
    and "for_each [0..<unat slicelength]
          (\<lambda>i. deletePage this (start + of_nat (length hs)))
          (mk this st
           (take (unat start) ps @ stage_all (qpdf this) k hs @ drop (unat start) ps)
           (k + copies_made (qpdf this) hs) (refs_taken (qpdf this) hs @ rs)) =
        (Inr (), mk this st
           (take (unat start) ps @ stage_all (qpdf this) k hs @
            drop (unat start + unat slicelength) ps)
           (k + copies_made (qpdf this) hs) (refs_taken (qpdf this) hs @ rs))"
    and "setPagesFromIterable this sl (map PyObjectHandle hs) (mk this st ps k rs) =
        (Inr (), mk this st
           (take (unat start) ps @ stage_all (qpdf this) k hs @
            drop (unat start + unat slicelength) ps)
           (k + copies_made (qpdf this) hs) (refs_taken (qpdf this) hs @ rs))"
proof -
  define a where "a = qpdf this"
  define s where "s = unat start"
  define L where "L = unat slicelength"
  define xs where "xs = take s ps"
  define ys where "ys = drop s ps"
  define mid where "mid = stage_all a k hs"
  define k' where "k' = k + copies_made a hs"
  define rs' where "rs' = refs_taken a hs @ rs"
  have n: "length ps < 2 ^ 63" using len by simp
  have b: "s \<le> length ps \<and> s + L \<le> length ps"
    unfolding s_def L_def by (rule compute_contiguous [OF c n])
  then show "unat start + unat slicelength \<le> length ps" by (simp add: s_def L_def)
  have ps: "ps = xs @ ys" by (simp add: xs_def ys_def)
  have lxs: "length xs = s" using b by (simp add: xs_def)
  have su: "unat start = length xs" by (simp add: lxs s_def)
  have d: "distinct (map ident xs @ map ident ys)"
    using dist by (simp add: ps)
  have ys_xs: "\<forall>y \<in> set ys. ident y \<notin> ident ` set xs" using d by auto
  have ys_mid: "\<forall>y \<in> set ys. ident y \<notin> ident ` set mid"
    using disj by (auto simp: mid_def a_def ps)
  have i1: "ident ` set xs \<inter> ident ` set mid = {}" "ident ` set mid \<inter> ident ` set ys = {}"
    using disj by (auto simp: mid_def a_def ps)
  have dm: "distinct (map ident mid)" using dst by (simp add: mid_def a_def)
  have "distinct (map ident (xs @ mid @ ys))"
    using d dm i1 by (simp add: Int_Un_distrib)
  then have dall: "distinct (map ident (xs @ stage_all (qpdf this) k (take (length hs) hs) @ ys))"
    by (simp add: mid_def a_def)
  have pg': "\<forall>h \<in> set (take (length hs) hs). isPageObject h" using pg by simp
  have l1: "length xs + length ys + length hs < 2 ^ 63" using len by (simp add: ps)
  have ins: "for_each [0..<length hs]
          (\<lambda>i. insertPage_obj this (start + of_nat i) (map PyObjectHandle hs ! i))
          (mk this st (xs @ ys) k rs) =
        (Inr (), mk this st (xs @ mid @ ys) k' rs')"
    using insert_loop [OF l1 su le_refl pg' dall, of st rs]
    by (simp add: mid_def k'_def rs'_def a_def)
  show ins': "for_each [0..<length hs]
          (\<lambda>i. insertPage_obj this (start + of_nat i) (map PyObjectHandle hs ! i))
          (mk this st ps k rs) =
        (Inr (), mk this st
           (take (unat start) ps @ stage_all (qpdf this) k hs @ drop (unat start) ps)
           (k + copies_made (qpdf this) hs) (refs_taken (qpdf this) hs @ rs))"
    using ins by (simp add: ps [symmetric]) (simp add: xs_def ys_def mid_def k'_def rs'_def a_def s_def)
  have "unat start + length hs < 2 ^ 63" using len b by (simp add: s_def)
  then have ud: "unat (start + of_nat (length hs)) = length (xs @ mid)"
    using unat_add_of_nat [of start "length hs"] by (simp add: lxs mid_def s_def)
  have l2: "length (xs @ mid) + length ys < 2 ^ 63" using l1 by (simp add: mid_def)
  have an2: "\<forall>y \<in> set ys. ident y \<notin> ident ` set (xs @ mid)"
    using ys_xs ys_mid by auto
  have "L \<le> length ps - s" using b by linarith
  then have Ly: "L \<le> length ys" by (simp add: ys_def)
  have del: "for_each [0..<L] (\<lambda>i. deletePage this (start + of_nat (length hs)))
          (mk this st ((xs @ mid) @ ys) k' rs') =
        (Inr (), mk this st ((xs @ mid) @ drop L ys) k' rs')"
    by (rule delete_loop [OF l2 ud an2 Ly])
  have dd: "drop L ys = drop (s + L) ps" by (simp add: ys_def add.commute)
  show del': "for_each [0..<unat slicelength]
          (\<lambda>i. deletePage this (start + of_nat (length hs)))
          (mk this st
           (take (unat start) ps @ stage_all (qpdf this) k hs @ drop (unat start) ps)
           (k + copies_made (qpdf this) hs) (refs_taken (qpdf this) hs @ rs)) =
        (Inr (), mk this st
           (take (unat start) ps @ stage_all (qpdf this) k hs @
            drop (unat start + unat slicelength) ps)
           (k + copies_made (qpdf this) hs) (refs_taken (qpdf this) hs @ rs))"
    using del by (simp add: dd) (simp add: xs_def ys_def mid_def k'_def rs'_def a_def s_def L_def)
  have cnt: "count this (mk this st ps k rs) = of_nat (length ps)" by (rule count_mk)
  have up: "unpack_iterable (map PyObjectHandle hs) [] = Inr (map PyObjectHandle hs)"
    by (rule unpack_handles [OF pg])
  show "setPagesFromIterable this sl (map PyObjectHandle hs) (mk this st ps k rs) =
        (Inr (), mk this st
           (take (unat start) ps @ stage_all (qpdf this) k hs @
            drop (unat start + unat slicelength) ps)
           (k + copies_made (qpdf this) hs) (refs_taken (qpdf this) hs @ rs))"
    by (simp add: setPagesFromIterable_def cnt c up ins' del' Let_def)
qed



lemma contiguous_refused_mk:
  assumes c: "compute sl (of_nat (length ps)) = Some (start, stop, 1, slicelength)"
    and len: "length ps + length hs < 2 ^ 63"
    and pg: "\<forall>h \<in> set hs. isPageObject h"
    and dist: "distinct (map ident ps)"
    and j: "j < length hs"
    and disj: "ident ` set (stage_all (qpdf this) k (take j hs)) \<inter> ident ` set ps = {}"
    and dst: "distinct (map ident (stage_all (qpdf this) k (take j hs)))"
    and dup: "ident (stage (qpdf this) (k + copies_made (qpdf this) (take j hs)) (hs ! j)) \<in>
        ident ` set ps \<union> ident ` set (stage_all (qpdf this) k (take j hs))"
  shows "for_each [0..<length hs]
          (\<lambda>i. insertPage_obj this (start + of_nat i) (map PyObjectHandle hs ! i))
          (mk this st ps k rs) =
        (Inl duplicate_page, mk this st
           (take (unat start) ps @ stage_all (qpdf this) k (take j hs) @ drop (unat start) ps)
           (k + copies_made (qpdf this) (take (Suc j) hs))
           (refs_taken (qpdf this) (take (Suc j) hs) @ rs))"
    and "setPagesFromIterable this sl (map PyObjectHandle hs) (mk this st ps k rs) =
        (Inl duplicate_page, mk this st
           (take (unat start) ps @ stage_all (qpdf this) k (take j hs) @ drop (unat start) ps)
           (k + copies_made (qpdf this) (take (Suc j) hs))
           (refs_taken (qpdf this) (take (Suc j) hs) @ rs))"
proof -
  define a where "a = qpdf this"
  define s where "s = unat start"
  define xs where "xs = take s ps"
  define ys where "ys = drop s ps"
  define mid where "mid = stage_all a k (take j hs)"
  have n: "length ps < 2 ^ 63" using len by simp
  have b: "s \<le> length ps \<and> s + unat slicelength \<le> length ps"
    unfolding s_def by (rule compute_contiguous [OF c n])
  have ps: "ps = xs @ ys" by (simp add: xs_def ys_def)
  have lxs: "length xs = s" using b by (simp add: xs_def)
  have su: "unat start = length xs" by (simp add: lxs s_def)
  have d: "distinct (map ident xs @ map ident ys)"
    using dist by (simp add: ps)
  have ys_mid: "\<forall>y \<in> set ys. ident y \<notin> ident ` set mid"
    using disj by (auto simp: mid_def a_def ps)
  have i1: "ident ` set xs \<inter> ident ` set mid = {}" "ident ` set mid \<inter> ident ` set ys = {}"
    using disj by (auto simp: mid_def a_def ps)
  have dm: "distinct (map ident mid)" using dst by (simp add: mid_def a_def)
  have "distinct (map ident (xs @ mid @ ys))"
    using d dm i1 by (simp add: Int_Un_distrib)
  then have dall: "distinct (map ident (xs @ stage_all (qpdf this) k (take j hs) @ ys))"
    by (simp add: mid_def a_def)
  have pg': "\<forall>h \<in> set (take (Suc j) hs). isPageObject h"
    using pg by (auto dest: in_set_takeD)
  have dup': "ident (stage (qpdf this) (k + copies_made (qpdf this) (take j hs)) (hs ! j)) \<in>
        ident ` set (xs @ stage_all (qpdf this) k (take j hs) @ ys)"
    using dup by (auto simp: ps)
  have l1: "length xs + length ys + length hs < 2 ^ 63" using len by (simp add: ps)
  have ins: "for_each [0..<length hs]
          (\<lambda>i. insertPage_obj this (start + of_nat i) (map PyObjectHandle hs ! i))
          (mk this st (xs @ ys) k rs) =
        (Inl duplicate_page, mk this st (xs @ stage_all (qpdf this) k (take j hs) @ ys)
           (k + copies_made (qpdf this) (take (Suc j) hs))
           (refs_taken (qpdf this) (take (Suc j) hs) @ rs))"
    by (rule insert_loop_refused [OF l1 su j pg' dall dup'])
  show ins': "for_each [0..<length hs]
          (\<lambda>i. insertPage_obj this (start + of_nat i) (map PyObjectHandle hs ! i))
          (mk this st ps k rs) =
        (Inl duplicate_page, mk this st
           (take (unat start) ps @ stage_all (qpdf this) k (take j hs) @ drop (unat start) ps)
           (k + copies_made (qpdf this) (take (Suc j) hs))
           (refs_taken (qpdf this) (take (Suc j) hs) @ rs))"
    using ins by (simp add: ps [symmetric]) (simp add: xs_def ys_def s_def)
  have cnt: "count this (mk this st ps k rs) = of_nat (length ps)" by (rule count_mk)
  have up: "unpack_iterable (map PyObjectHandle hs) [] = Inr (map PyObjectHandle hs)"
    by (rule unpack_handles [OF pg])
  show "setPagesFromIterable this sl (map PyObjectHandle hs) (mk this st ps k rs) =
        (Inl duplicate_page, mk this st
           (take (unat start) ps @ stage_all (qpdf this) k (take j hs) @ drop (unat start) ps)
           (k + copies_made (qpdf this) (take (Suc j) hs))
           (refs_taken (qpdf this) (take (Suc j) hs) @ rs))"
    by (simp add: setPagesFromIterable_def cnt c up ins' Let_def)
qed

text \<open>
  The same for a source that begins with the handles \<open>pre\<close>, which the engine accepts,
  followed by a handle \<open>f\<close> of another document whose object is in the collection or
  among \<open>pre\<close>.
\<close>

lemma contiguous_refused_at:
  assumes c: "compute sl (of_nat (length ps)) = Some (start, stop, 1, slicelength)"
    and len: "length ps + length (pre @ f # post) < 2 ^ 63"
    and pg: "\<forall>h \<in> set (pre @ f # post). isPageObject h"
    and dist: "distinct (map ident ps)"
    and fr: "\<forall>h \<in> set ps. getOwningQPDF h = Some (qpdf this) \<longrightarrow> getObjGen h < k"
    and ok: "transplants_new (qpdf this) ps pre"
    and f: "getOwningQPDF f \<noteq> Some (qpdf this)"
    and dup: "ident f \<in> ident ` set ps \<union> ident ` set pre"
  shows "for_each [0..<length (pre @ f # post)]
          (\<lambda>i. insertPage_obj this (start + of_nat i) (map PyObjectHandle (pre @ f # post) ! i))
          (mk this st ps k rs) =
        (Inl duplicate_page, mk this st
           (take (unat start) ps @ stage_all (qpdf this) k pre @ drop (unat start) ps)
           (k + copies_made (qpdf this) pre)
           (getOwningQPDF f # refs_taken (qpdf this) pre @ rs))"
    and "setPagesFromIterable this sl (map PyObjectHandle (pre @ f # post)) (mk this st ps k rs) =
        (Inl duplicate_page, mk this st
           (take (unat start) ps @ stage_all (qpdf this) k pre @ drop (unat start) ps)
           (k + copies_made (qpdf this) pre)
           (getOwningQPDF f # refs_taken (qpdf this) pre @ rs))"
proof -
  define hs where "hs = pre @ f # post"
  define j where "j = length pre"
  have j: "j < length hs" by (simp add: hs_def j_def)
  have tj: "take j hs = pre" by (simp add: hs_def j_def)
  have nj: "hs ! j = f" by (simp add: hs_def j_def)
  have ts: "take (Suc j) hs = pre @ [f]" by (simp add: hs_def j_def)
  have len': "length ps + length hs < 2 ^ 63" using len by (simp only: hs_def)
  have pg': "\<forall>h \<in> set hs. isPageObject h" using pg by (simp only: hs_def)
  have disj: "ident ` set (stage_all (qpdf this) k (take j hs)) \<inter> ident ` set ps = {}"
    unfolding tj by (rule transplants_new_staged(1) [OF fr ok])
  have dst: "distinct (map ident (stage_all (qpdf this) k (take j hs)))"
    unfolding tj by (rule transplants_new_staged(2) [OF fr ok])
  have sf: "stage (qpdf this) (k + copies_made (qpdf this) pre) f = f"
    using f by (simp add: stage_def)
  have "ident f \<in> ident ` set (stage_all (qpdf this) k pre)" if "ident f \<in> ident ` set pre"
  proof -
    from that obtain x where x: "ident f = ident x" "x \<in> set pre" by (rule imageE)
    then have "getOwningQPDF x \<noteq> Some (qpdf this)" using f ident_owner by metis
    then have "x \<in> set (stage_all (qpdf this) k pre)"
      using x(2) by (intro stage_all_keeps_foreign)
    then have "ident x \<in> ident ` set (stage_all (qpdf this) k pre)" by (rule imageI)
    then show ?thesis by (simp only: x(1))
  qed
  then have dup': "ident (stage (qpdf this) (k + copies_made (qpdf this) (take j hs)) (hs ! j)) \<in>
        ident ` set ps \<union> ident ` set (stage_all (qpdf this) k (take j hs))"
    unfolding tj nj sf using dup by blast
  have k_eq: "k + copies_made (qpdf this) (pre @ [f]) = k + copies_made (qpdf this) pre"
    using f by (simp add: copies_made_snoc)
  have r_eq: "refs_taken (qpdf this) (pre @ [f]) = getOwningQPDF f # refs_taken (qpdf this) pre"
    using f by (simp add: refs_taken_snoc)
  note r = contiguous_refused_mk [OF c len' pg' dist j disj dst dup', where st = st and rs = rs,
      unfolded tj ts k_eq r_eq, unfolded hs_def]
  show "for_each [0..<length (pre @ f # post)]
          (\<lambda>i. insertPage_obj this (start + of_nat i) (map PyObjectHandle (pre @ f # post) ! i))
          (mk this st ps k rs) =
        (Inl duplicate_page, mk this st
           (take (unat start) ps @ stage_all (qpdf this) k pre @ drop (unat start) ps)
           (k + copies_made (qpdf this) pre)
           (getOwningQPDF f # refs_taken (qpdf this) pre @ rs))"
    using r(1) by simp
  show "setPagesFromIterable this sl (map PyObjectHandle (pre @ f # post)) (mk this st ps k rs) =
        (Inl duplicate_page, mk this st
           (take (unat start) ps @ stage_all (qpdf this) k pre @ drop (unat start) ps)
           (k + copies_made (qpdf this) pre)
           (getOwningQPDF f # refs_taken (qpdf this) pre @ rs))"
    using r(2) by simp
qed


text \<open>
  C6. Let the slice resolve, against the current count, to start \<open>s\<close>, step 1 and
  length \<open>L\<close>, and let the source be \<open>k\<close> pages (\<open>k\<close> need not be \<open>L\<close>). The pages of
  the collection are pairwise different objects with object numbers below the next free
  one. Then \<open>s + L\<close> is at most the count.

  When the source pages of other documents are pairwise different objects and none of
  them is in the collection (\<open>transplants_new\<close>), the insertion loop runs first and
  leaves the source pages (copies for pages of the bound document, \<open>stage_all\<close>) at the
  positions \<open>s, ..., s + k - 1\<close> in order, with all original pages still present; the
  call is the deletion loop run on that state, \<open>L\<close> times at position \<open>s + k\<close>; at the
  end the pages of the slice are replaced in order by the source pages, and the count is
  the original count minus \<open>L\<close> plus \<open>k\<close>.

  When the source is \<open>pre\<close>, then a page \<open>f\<close> of another document whose object is in
  the collection or among \<open>pre\<close>, then \<open>post\<close>, and \<open>pre\<close> satisfies the condition
  above, the engine refuses \<open>f\<close>: the call is the insertion loop alone, it fails with
  the engine's error, the pages of \<open>pre\<close> have been inserted at \<open>s\<close> and nothing has
  been deleted.
\<close>

theorem setPagesFromIterable_contiguous:
  assumes c: "compute sl (count this st) = Some (start, stop, 1, slicelength)"
    and len: "length (pages_of this st) + length hs < 2 ^ 63"
    and pg: "\<forall>h \<in> set hs. isPageObject h"
    and dist: "distinct (map ident (pages_of this st))"
    and fresh: "fresh_ids this st"
  shows "unat start + unat slicelength \<le> length (pages_of this st)
    \<and> (transplants_new (qpdf this) (pages_of this st) hs \<longrightarrow>
      fst (for_each [0..<length hs]
          (\<lambda>i. insertPage_obj this (start + of_nat i) (map PyObjectHandle hs ! i)) st) = Inr ()
    \<and> pages_of this (snd (for_each [0..<length hs]
          (\<lambda>i. insertPage_obj this (start + of_nat i) (map PyObjectHandle hs ! i)) st)) =
        take (unat start) (pages_of this st) @
        stage_all (qpdf this) (next_obj (heap st (qpdf this))) hs @
        drop (unat start) (pages_of this st)
    \<and> setPagesFromIterable this sl (map PyObjectHandle hs) st =
        for_each [0..<unat slicelength] (\<lambda>i. deletePage this (start + of_nat (length hs)))
          (snd (for_each [0..<length hs]
            (\<lambda>i. insertPage_obj this (start + of_nat i) (map PyObjectHandle hs ! i)) st))
    \<and> fst (setPagesFromIterable this sl (map PyObjectHandle hs) st) = Inr ()
    \<and> pages_of this (snd (setPagesFromIterable this sl (map PyObjectHandle hs) st)) =
        take (unat start) (pages_of this st) @
        stage_all (qpdf this) (next_obj (heap st (qpdf this))) hs @
        drop (unat start + unat slicelength) (pages_of this st)
    \<and> length (pages_of this (snd (setPagesFromIterable this sl (map PyObjectHandle hs) st))) =
        length (pages_of this st) - unat slicelength + length hs
    \<and> map contents (stage_all (qpdf this) (next_obj (heap st (qpdf this))) hs) = map contents hs)
    \<and> (hs = pre @ f # post \<and> transplants_new (qpdf this) (pages_of this st) pre
        \<and> getOwningQPDF f \<noteq> Some (qpdf this)
        \<and> ident f \<in> ident ` set (pages_of this st) \<union> ident ` set pre \<longrightarrow>
      setPagesFromIterable this sl (map PyObjectHandle hs) st =
        for_each [0..<length hs]
          (\<lambda>i. insertPage_obj this (start + of_nat i) (map PyObjectHandle hs ! i)) st
    \<and> fst (setPagesFromIterable this sl (map PyObjectHandle hs) st) = Inl duplicate_page
    \<and> pages_of this (snd (setPagesFromIterable this sl (map PyObjectHandle hs) st)) =
        take (unat start) (pages_of this st) @
        stage_all (qpdf this) (next_obj (heap st (qpdf this))) pre @
        drop (unat start) (pages_of this st)
    \<and> length (pages_of this (snd (setPagesFromIterable this sl (map PyObjectHandle hs) st))) =
        length (pages_of this st) + length pre)"
proof -
  define ps where "ps = pages_of this st"
  define k where "k = next_obj (heap st (qpdf this))"
  define rs where "rs = inc_refs st"
  have st: "mk this st ps k rs = st" by (simp add: ps_def k_def rs_def mk_id)
  have c': "compute sl (of_nat (length ps)) = Some (start, stop, 1, slicelength)"
    using c by (simp add: count_def ps_def pages_of_def)
  have len': "length ps + length hs < 2 ^ 63" using len by (simp add: ps_def)
  have dist': "distinct (map ident ps)" using dist by (simp add: ps_def)
  have fr: "\<forall>h \<in> set ps. getOwningQPDF h = Some (qpdf this) \<longrightarrow> getObjGen h < k"
    using fresh by (simp add: fresh_ids_def ps_def k_def)
  have n: "length ps < 2 ^ 63" using len' by simp
  have b: "unat start + unat slicelength \<le> length ps"
    using compute_contiguous [OF c' n] by simp
  have bs: "unat start \<le> length ps" using b by simp
  have A: "fst (for_each [0..<length hs]
          (\<lambda>i. insertPage_obj this (start + of_nat i) (map PyObjectHandle hs ! i)) st) = Inr ()
    \<and> pages_of this (snd (for_each [0..<length hs]
          (\<lambda>i. insertPage_obj this (start + of_nat i) (map PyObjectHandle hs ! i)) st)) =
        take (unat start) ps @ stage_all (qpdf this) k hs @ drop (unat start) ps
    \<and> setPagesFromIterable this sl (map PyObjectHandle hs) st =
        for_each [0..<unat slicelength] (\<lambda>i. deletePage this (start + of_nat (length hs)))
          (snd (for_each [0..<length hs]
            (\<lambda>i. insertPage_obj this (start + of_nat i) (map PyObjectHandle hs ! i)) st))
    \<and> fst (setPagesFromIterable this sl (map PyObjectHandle hs) st) = Inr ()
    \<and> pages_of this (snd (setPagesFromIterable this sl (map PyObjectHandle hs) st)) =
        take (unat start) ps @ stage_all (qpdf this) k hs @
        drop (unat start + unat slicelength) ps
    \<and> length (pages_of this (snd (setPagesFromIterable this sl (map PyObjectHandle hs) st))) =
        length ps - unat slicelength + length hs
    \<and> map contents (stage_all (qpdf this) k hs) = map contents hs"
    if ok: "transplants_new (qpdf this) ps hs"
  proof -
    have disj: "ident ` set (stage_all (qpdf this) k hs) \<inter> ident ` set ps = {}"
      by (rule transplants_new_staged(1) [OF fr ok])
    have dst: "distinct (map ident (stage_all (qpdf this) k hs))"
      by (rule transplants_new_staged(2) [OF fr ok])
    note r = contiguous_assign_mk(2-4) [OF c' len' pg dist' disj dst, where st = st and rs = rs,
        unfolded st]
    have l: "length (take (unat start) ps @ stage_all (qpdf this) k hs @
          drop (unat start + unat slicelength) ps) = length ps - unat slicelength + length hs"
      using b by simp
    show ?thesis using l by (simp add: r)
  qed
  have B: "setPagesFromIterable this sl (map PyObjectHandle hs) st =
        for_each [0..<length hs]
          (\<lambda>i. insertPage_obj this (start + of_nat i) (map PyObjectHandle hs ! i)) st
    \<and> fst (setPagesFromIterable this sl (map PyObjectHandle hs) st) = Inl duplicate_page
    \<and> pages_of this (snd (setPagesFromIterable this sl (map PyObjectHandle hs) st)) =
        take (unat start) ps @ stage_all (qpdf this) k pre @ drop (unat start) ps
    \<and> length (pages_of this (snd (setPagesFromIterable this sl (map PyObjectHandle hs) st))) =
        length ps + length pre"
    if hs: "hs = pre @ f # post" and ok: "transplants_new (qpdf this) ps pre"
      and f: "getOwningQPDF f \<noteq> Some (qpdf this)"
      and dup: "ident f \<in> ident ` set ps \<union> ident ` set pre"
  proof -
    have len'': "length ps + length (pre @ f # post) < 2 ^ 63" using len' by (simp only: hs)
    have pg'': "\<forall>h \<in> set (pre @ f # post). isPageObject h" using pg by (simp only: hs)
    note r = contiguous_refused_at [OF c' len'' pg'' dist' fr ok f dup,
        where st = st and rs = rs, unfolded st, folded hs]
    have l: "length (take (unat start) ps @ stage_all (qpdf this) k pre @ drop (unat start) ps) =
        length ps + length pre"
      using bs by simp
    show ?thesis using l by (simp add: r)
  qed
  show ?thesis
    unfolding ps_def [symmetric] k_def [symmetric]
    using b A B by blast
qed

lemma compute_1_2:
  "compute \<lparr>slice_start = Some 1, slice_stop = Some 2, slice_step = None\<rparr> 3 = Some (1, 2, 1, 1)"
  by (simp add: compute_def PySlice_Unpack_def PySlice_AdjustIndices_def adjust_bound_def
      PyEval_SliceIndex_def PY_SSIZE_T_MAX_def PY_SSIZE_T_MIN_def Let_def)

lemma compute_0_1:
  "compute \<lparr>slice_start = Some 0, slice_stop = Some 1, slice_step = None\<rparr> 2 = Some (0, 1, 1, 1)"
  by (simp add: compute_def PySlice_Unpack_def PySlice_AdjustIndices_def adjust_bound_def
      PyEval_SliceIndex_def PY_SSIZE_T_MAX_def PY_SSIZE_T_MIN_def Let_def)

lemma pages_FB: "pages_of pl0 st_FB = [pageF, pageB]"
  by (simp add: st_FB_def)

lemma count_FB: "count pl0 st_FB = 2"
  by (simp add: count_def pages_FB [unfolded pages_of_def])

lemma distinct_FB: "distinct (map ident [pageF, pageB])"
  by (simp add: ident_def pageF_def pageB_def)

lemma fresh_FB: "fresh_ids pl0 st_FB"
  unfolding st_FB_def fresh_ids_mk by (simp add: pageF_def pageB_def pl0_def)

lemma foreign_F: "getOwningQPDF pageF \<noteq> Some (qpdf pl0)"
  by (simp add: pageF_def pl0_def)

lemma transplanted_B: "insertPage pl0 0 pageF st_B = (Inr (), st_FB)"
proof -
  have new: "ident (stage (qpdf pl0) 3 pageF) \<notin> ident ` set [pageB]"
    unfolding stage_F by (simp add: ident_def pageB_def pageF_def)
  have "insertPage pl0 0 pageF (mk pl0 empty_state [pageB] 3 []) =
      (Inr (), mk pl0 empty_state (take (unat (0 :: 64 word)) [pageB] @
          [stage (qpdf pl0) 3 pageF] @ drop (unat (0 :: 64 word)) [pageB])
        (if getOwningQPDF pageF = Some (qpdf pl0) then Suc 3 else 3)
        (if getOwningQPDF pageF = Some (qpdf pl0) then [] else getOwningQPDF pageF # []))"
    by (rule insertPage_mk [OF _ _ _ new]) (simp_all add: ident_def pageB_def pageF_def)
  then show ?thesis
    by (simp add: st_B_def stage_F foreign_F) (simp add: st_FB_def pageF_def)
qed

theorem setPagesFromIterable_contiguous_witness:
  "transplants_new (qpdf pl0) (pages_of pl0 st_ABC) [pageF, pageA]
   \<and> fst (setPagesFromIterable pl0 \<lparr>slice_start = Some 1, slice_stop = Some 2, slice_step = None\<rparr>
          (map PyObjectHandle [pageF, pageA]) st_ABC) = Inr ()
   \<and> pages_of pl0 (snd (for_each [0..<length [pageF, pageA]]
          (\<lambda>i. insertPage_obj pl0 (1 + of_nat i) (map PyObjectHandle [pageF, pageA] ! i))
          st_ABC)) = [pageA, pageF, pageA\<lparr>getObjGen := 4\<rparr>, pageB, pageC]
   \<and> pages_of pl0 (snd (setPagesFromIterable pl0
          \<lparr>slice_start = Some 1, slice_stop = Some 2, slice_step = None\<rparr>
          (map PyObjectHandle [pageF, pageA]) st_ABC)) =
        [pageA, pageF, pageA\<lparr>getObjGen := 4\<rparr>, pageC]
   \<and> ident pageF \<in> ident ` set (pages_of pl0 st_FB) \<union> ident ` set []
   \<and> fst (setPagesFromIterable pl0 \<lparr>slice_start = Some 0, slice_stop = Some 1, slice_step = None\<rparr>
          (map PyObjectHandle [pageF, pageG]) st_FB) = Inl duplicate_page
   \<and> pages_of pl0 (snd (setPagesFromIterable pl0
          \<lparr>slice_start = Some 0, slice_stop = Some 1, slice_step = None\<rparr>
          (map PyObjectHandle [pageF, pageG]) st_FB)) = [pageF, pageB]"
proof -
  have c: "compute \<lparr>slice_start = Some 1, slice_stop = Some 2, slice_step = None\<rparr>
      (count pl0 st_ABC) = Some (1, 2, 1, 1)"
    by (simp only: count_ABC compute_1_2)
  have len: "length (pages_of pl0 st_ABC) + length [pageF, pageA] < 2 ^ 63"
    by (simp add: pages_ABC)
  have pg: "\<forall>h \<in> set [pageF, pageA]. isPageObject h" by (simp add: pageF_def pageA_def)
  have dist: "distinct (map ident (pages_of pl0 st_ABC))"
    by (simp only: pages_ABC distinct_ABC)
  have ok: "transplants_new (qpdf pl0) (pages_of pl0 st_ABC) [pageF, pageA]"
    by (simp add: transplants_new_def pages_ABC)
      (simp add: ident_def pageA_def pageB_def pageC_def pageF_def pl0_def)
  have k: "next_obj (heap st_ABC (qpdf pl0)) = 4" by (simp add: st_ABC_def)
  have s: "stage_all (qpdf pl0) 4 [pageF, pageA] = [pageF, pageA\<lparr>getObjGen := 4\<rparr>]"
    by (simp add: stage_def pageF_def pageA_def pl0_def)
  have e1: "take (unat (1 :: 64 word)) (pages_of pl0 st_ABC) @
        stage_all (qpdf pl0) (next_obj (heap st_ABC (qpdf pl0))) [pageF, pageA] @
        drop (unat (1 :: 64 word)) (pages_of pl0 st_ABC) =
      [pageA, pageF, pageA\<lparr>getObjGen := 4\<rparr>, pageB, pageC]"
    by (simp only: k s pages_ABC) simp
  have e2: "take (unat (1 :: 64 word)) (pages_of pl0 st_ABC) @
        stage_all (qpdf pl0) (next_obj (heap st_ABC (qpdf pl0))) [pageF, pageA] @
        drop (unat (1 :: 64 word) + unat (1 :: 64 word)) (pages_of pl0 st_ABC) =
      [pageA, pageF, pageA\<lparr>getObjGen := 4\<rparr>, pageC]"
    by (simp only: k s pages_ABC) simp
  have c2: "compute \<lparr>slice_start = Some 0, slice_stop = Some 1, slice_step = None\<rparr>
      (count pl0 st_FB) = Some (0, 1, 1, 1)"
    by (simp only: count_FB compute_0_1)
  have len2: "length (pages_of pl0 st_FB) + length [pageF, pageG] < 2 ^ 63"
    by (simp add: pages_FB)
  have pg2: "\<forall>h \<in> set [pageF, pageG]. isPageObject h" by (simp add: pageF_def pageG_def)
  have dist2: "distinct (map ident (pages_of pl0 st_FB))"
    by (simp only: pages_FB distinct_FB)
  have hs2: "[pageF, pageG] = [] @ pageF # [pageG]" by simp
  have ok2: "transplants_new (qpdf pl0) (pages_of pl0 st_FB) []"
    by (simp add: transplants_new_def)
  have dup2: "ident pageF \<in> ident ` set (pages_of pl0 st_FB) \<union> ident ` set []"
    by (simp add: pages_FB)
  have e3: "take (unat (0 :: 64 word)) (pages_of pl0 st_FB) @
        stage_all (qpdf pl0) (next_obj (heap st_FB (qpdf pl0))) [] @
        drop (unat (0 :: 64 word)) (pages_of pl0 st_FB) = [pageF, pageB]"
    by (simp add: pages_FB)
  show ?thesis
    using setPagesFromIterable_contiguous [OF c len pg dist fresh_ABC, of "[]" pageF "[pageG]"]
      setPagesFromIterable_contiguous [OF c2 len2 pg2 dist2 fresh_FB, of "[]" pageF "[pageG]"]
      ok hs2 ok2 foreign_F dup2
    unfolding e1 e2 e3 by blast
qed

text \<open>
  The page F of another document is inserted into the collection [B], which becomes
  [F, B]; then the slice \<open>[0:1]\<close> is assigned the pages F and G of that document. The
  first insertion is refused by the engine: the call fails, neither F nor G has been
  inserted, the page count is still 2 and not \<open>2 - 1 + 2\<close>.
\<close>

theorem setPagesFromIterable_transplanted_again:
  "insertPage pl0 0 pageF st_B = (Inr (), st_FB)
   \<and> compute \<lparr>slice_start = Some 0, slice_stop = Some 1, slice_step = None\<rparr>
        (count pl0 st_FB) = Some (0, 1, 1, 1)
   \<and> fst (setPagesFromIterable pl0 \<lparr>slice_start = Some 0, slice_stop = Some 1, slice_step = None\<rparr>
          (map PyObjectHandle [pageF, pageG]) st_FB) = Inl duplicate_page
   \<and> pages_of pl0 (snd (setPagesFromIterable pl0
          \<lparr>slice_start = Some 0, slice_stop = Some 1, slice_step = None\<rparr>
          (map PyObjectHandle [pageF, pageG]) st_FB)) = [pageF, pageB]
   \<and> length (pages_of pl0 (snd (setPagesFromIterable pl0
          \<lparr>slice_start = Some 0, slice_stop = Some 1, slice_step = None\<rparr>
          (map PyObjectHandle [pageF, pageG]) st_FB))) = 2"
proof -
  have c: "compute \<lparr>slice_start = Some 0, slice_stop = Some 1, slice_step = None\<rparr>
      (of_nat (length [pageF, pageB])) = Some (0, 1, 1, 1)"
    using compute_0_1 by simp
  have c': "compute \<lparr>slice_start = Some 0, slice_stop = Some 1, slice_step = None\<rparr>
      (count pl0 st_FB) = Some (0, 1, 1, 1)"
    by (simp only: count_FB compute_0_1)
  have len: "length [pageF, pageB] + length ([] @ pageF # [pageG]) < 2 ^ 63" by simp
  have pg: "\<forall>h \<in> set ([] @ pageF # [pageG]). isPageObject h"
    by (simp add: pageF_def pageG_def)
  have fr: "\<forall>h \<in> set [pageF, pageB]. getOwningQPDF h = Some (qpdf pl0) \<longrightarrow> getObjGen h < 3"
    by (simp add: pageF_def pageB_def pl0_def)
  have ok: "transplants_new (qpdf pl0) [pageF, pageB] []"
    by (simp add: transplants_new_def)
  have dup: "ident pageF \<in> ident ` set [pageF, pageB] \<union> ident ` set []" by simp
  have r: "setPagesFromIterable pl0
        \<lparr>slice_start = Some 0, slice_stop = Some 1, slice_step = None\<rparr>
        (map PyObjectHandle ([] @ pageF # [pageG])) (mk pl0 empty_state [pageF, pageB] 3 [Some 1]) =
      (Inl duplicate_page, mk pl0 empty_state
         (take (unat (0 :: 64 word)) [pageF, pageB] @ stage_all (qpdf pl0) 3 [] @
          drop (unat (0 :: 64 word)) [pageF, pageB])
         (3 + copies_made (qpdf pl0) [])
         (getOwningQPDF pageF # refs_taken (qpdf pl0) [] @ [Some 1]))"
    by (rule contiguous_refused_at(2) [OF c len pg distinct_FB fr ok foreign_F dup])
  have r': "setPagesFromIterable pl0
        \<lparr>slice_start = Some 0, slice_stop = Some 1, slice_step = None\<rparr>
        (map PyObjectHandle [pageF, pageG]) st_FB =
      (Inl duplicate_page, mk pl0 empty_state [pageF, pageB]
         (3 + copies_made (qpdf pl0) [])
         (getOwningQPDF pageF # refs_taken (qpdf pl0) [] @ [Some 1]))"
    using r by (simp add: st_FB_def)
  show ?thesis
    using transplanted_B c' r' by simp
qed


subsection \<open>Reversal\<close>




















subsection \<open>Extending a page list with itself\<close>












subsection \<open>Replacing a page at an index below the count\<close>

text \<open>
  For an index below the count \<open>setPage\<close> replaces the page at that position: the page
  given (or its copy) is placed there, and the page that was there, by then one position
  later, is removed.
\<close>

lemma setPage_replaces:
  assumes len: "length (pages_of this st) + 1 < 2 ^ 63"
    and idx: "unat index < length (pages_of this st)"
    and dist: "distinct (map ident (pages_of this st))"
    and page: "isPageObject h"
    and new: "ident (stage (qpdf this) (next_obj (heap st (qpdf this))) h) \<notin>
        ident ` set (pages_of this st)"
  shows "fst (setPage this index (PyObjectHandle h) st) = Inr ()
    \<and> pages_of this (snd (setPage this index (PyObjectHandle h) st)) =
        take (unat index) (pages_of this st) @
        [stage (qpdf this) (next_obj (heap st (qpdf this))) h] @
        drop (Suc (unat index)) (pages_of this st)"
proof -
  define ps where "ps = pages_of this st"
  define x where "x = stage (qpdf this) (next_obj (heap st (qpdf this))) h"
  define k' where "k' = (if getOwningQPDF h = Some (qpdf this)
      then Suc (next_obj (heap st (qpdf this))) else next_obj (heap st (qpdf this)))"
  define rs' where "rs' = (if getOwningQPDF h = Some (qpdf this) then inc_refs st
      else getOwningQPDF h # inc_refs st)"
  define xs where "xs = take (unat index) ps @ [x]"
  define ys where "ys = drop (unat index) ps"
  have i: "unat index < length ps" using idx by (simp add: ps_def)
  have len0: "length (pages_of this st) < 2 ^ 63" using len by simp
  have idx0: "unat index \<le> length (pages_of this st)" using idx by simp
  have ins: "insertPage this index h st = (Inr (), mk this st (xs @ ys) k' rs')"
    using insertPage_any [OF len0 idx0 dist new]
    by (simp add: xs_def ys_def x_def k'_def rs'_def ps_def)
  have set_eq: "setPage this index (PyObjectHandle h) st =
      deletePage this (index + 1) (mk this st (xs @ ys) k' rs')"
    using setPage_valid(1) [OF len idx dist page new] by (simp add: ins)
  have l: "length xs + length ys < 2 ^ 63" using len i by (simp add: xs_def ys_def ps_def)
  have "unat index < 2 ^ 63" using len idx by simp
  then have u: "unat (index + 1) = length xs"
    using unat_plus_one [of index] i by (simp add: xs_def)
  have ne: "ys \<noteq> []" using i by (simp add: ys_def)
  have hd: "hd ys = ps ! unat index" using i by (simp add: ys_def hd_drop_conv_nth)
  have "ident (ps ! unat index) \<notin> ident ` set (take (unat index) ps)"
    using dist i unfolding ps_def by (intro distinct_anchor)
  moreover have "ps ! unat index \<in> set ps" using i by simp
  then have "ident (ps ! unat index) \<in> ident ` set ps" by (rule imageI)
  then have "ident (ps ! unat index) \<noteq> ident x"
    using new by (auto simp: x_def ps_def)
  ultimately have an: "ident (hd ys) \<notin> ident ` set xs" by (auto simp: hd xs_def)
  have del: "deletePage this (index + 1) (mk this st (xs @ ys) k' rs') =
      (Inr (), mk this st (xs @ tl ys) k' rs')"
    by (rule deletePage_between [OF l u ne an])
  have "tl ys = drop (Suc (unat index)) ps" by (simp add: ys_def drop_Suc tl_drop)
  then show ?thesis
    by (simp add: set_eq del) (simp add: xs_def x_def ps_def)
qed

end
